theory Spec2Isabelle
  imports Complex_Main "HOL-Library.AList" "HOL-Library.Log_Nat"
begin

text \<open>
  A model of \<open>sheetRearranger.js\<close>, the Apps Script that rearranges the item level
  analysis of an exam from repeated triplets of columns (question number, mark, max
  mark) into one column for each question, under two header rows, and colours the marks.

  The sections up to \<open>The run\<close> translate the script: its string methods, its two lookup
  tables (plain JavaScript objects), its loops and the calls it makes on the spreadsheet.
  The sections after them state what the specification says about the script and prove
  or refute it on the model.
\<close>

section \<open>JavaScript strings\<close>

text \<open>
  Strings are lists of 8-bit code units, read as the code points U+0000 to U+00FF. The
  string methods of the script (\<open>trim\<close>, \<open>toLowerCase\<close>, \<open>includes\<close>) are modelled on that
  range.
\<close>

text \<open>The white space and line terminators that \<open>String.prototype.trim\<close> strips:
  TAB, LF, VT, FF, CR, SP and NBSP.\<close>

definition isWhiteSpace :: "char \<Rightarrow> bool" where
  "isWhiteSpace c = (of_char c \<in> {9, 10, 11, 12, 13, 32, 160 :: nat})"

definition trim :: "string \<Rightarrow> string" where
  "trim s = rev (dropWhile isWhiteSpace (rev (dropWhile isWhiteSpace s)))"

text \<open>\<open>toLowerCase\<close>: A to Z, and the upper-case letters of U+00C0 to U+00DE (not the
  multiplication sign U+00D7), move up by 32.\<close>

definition toLowerChar :: "char \<Rightarrow> char" where
  "toLowerChar c =
     (let n = (of_char c :: nat)
      in if (65 \<le> n \<and> n \<le> 90) \<or> (192 \<le> n \<and> n \<le> 222 \<and> n \<noteq> 215)
         then char_of (n + 32) else c)"

definition toLowerCase :: "string \<Rightarrow> string" where
  "toLowerCase s = map toLowerChar s"

text \<open>\<open>s.includes(p)\<close>: \<open>p\<close> occurs in \<open>s\<close> as a contiguous block.\<close>

fun includes_str :: "string \<Rightarrow> string \<Rightarrow> bool" where
  "includes_str [] p = (p = [])"
| "includes_str (c # cs) p = (take (length p) (c # cs) = p \<or> includes_str cs p)"

text \<open>Decimal rendering of a whole number, as a template literal or \<open>toString\<close> gives it
  (for a whole number of \<open>10 ^ 21\<close> or more JavaScript writes an exponent; such numbers are
  outside the model).\<close>

fun show_nat :: "nat \<Rightarrow> string" where
  "show_nat n =
     (if n < 10 then [char_of (48 + n)]
      else show_nat (n div 10) @ [char_of (48 + n mod 10)])"

declare show_nat.simps [simp del]

definition show_int :: "int \<Rightarrow> string" where
  "show_int i = (if i < 0 then CHR ''-'' # show_nat (nat (- i)) else show_nat (nat i))"


section \<open>JavaScript numbers\<close>

text \<open>
  A number of the script is an IEEE double. A finite double is modelled by the real number
  it stands for, and an arithmetic operation by the exact operation followed by rounding
  to the nearest double, ties to the even mantissa. The limits of the exponent of a
  double (overflow, subnormal numbers) are not modelled.
\<close>

definition pow2 :: "int \<Rightarrow> real" where
  "pow2 k = (if 0 \<le> k then 2 ^ nat k else 1 / 2 ^ nat (- k))"

text \<open>The binary exponent \<open>e\<close> of a positive number \<open>x\<close>: \<open>2 ^ e \<le> x < 2 ^ (e + 1)\<close>.\<close>

definition binaryExponent :: "real \<Rightarrow> int" where
  "binaryExponent x =
     (if 1 \<le> x then bitlen \<lfloor>x\<rfloor> - 1 else - bitlen (\<lceil>1 / x\<rceil> - 1))"

text \<open>The nearest integer, the even one of two that are equally near.\<close>

definition roundHalfEven :: "real \<Rightarrow> int" where
  "roundHalfEven y =
     (let f = \<lfloor>y\<rfloor>; d = y - of_int f
      in if d < 1 / 2 then f else if 1 / 2 < d then f + 1 else if even f then f else f + 1)"

text \<open>The nearest double: a mantissa of 53 bits, so the doubles next to \<open>x\<close> are the
  multiples of \<open>2 ^ (e - 52)\<close> for the binary exponent \<open>e\<close> of \<open>x\<close>.\<close>

definition roundDouble :: "real \<Rightarrow> real" where
  "roundDouble x =
     (if x = 0 then 0
      else let u = pow2 (binaryExponent \<bar>x\<bar> - 52)
           in sgn x * of_int (roundHalfEven (\<bar>x\<bar> / u)) * u)"

text \<open>\<open>a - b\<close>, \<open>a + b\<close> and \<open>a / b\<close>.\<close>

definition js_sub :: "real \<Rightarrow> real \<Rightarrow> real" where
  "js_sub a b = roundDouble (a - b)"

definition js_add :: "real \<Rightarrow> real \<Rightarrow> real" where
  "js_add a b = roundDouble (a + b)"

definition js_div :: "real \<Rightarrow> real \<Rightarrow> real" where
  "js_div a b = roundDouble (a / b)"

text \<open>\<open>a % b\<close>: the remainder of the division truncated towards zero. It is a double and
  needs no rounding.\<close>

definition js_trunc :: "real \<Rightarrow> int" where
  "js_trunc x = (if 0 \<le> x then \<lfloor>x\<rfloor> else \<lceil>x\<rceil>)"

definition js_rem :: "real \<Rightarrow> real \<Rightarrow> real" where
  "js_rem a b = a - b * of_int (js_trunc (a / b))"

text \<open>\<open>String.fromCharCode(x)\<close>: the code unit \<open>x\<close> truncated, modulo \<open>2 ^ 16\<close>.\<close>

definition fromCharCode :: "real \<Rightarrow> char" where
  "fromCharCode x = char_of (js_trunc x mod 65536)"


section \<open>Column letters\<close>

text \<open>
  \<open>columnToLetter\<close> (lines 198 to 206). The loop variables are \<open>column\<close> and \<open>letter\<close>;
  the loop runs while \<open>column > 0\<close>. The result is \<open>None\<close> when the loop does not end.
\<close>

partial_function (option) columnToLetter_double_loop :: "real \<Rightarrow> string \<Rightarrow> string option" where
  "columnToLetter_double_loop column letter =
     (if column > 0
      then let temp = js_rem (js_sub column 1) 26
           in columnToLetter_double_loop (js_div (js_sub (js_sub column temp) 1) 26)
                (fromCharCode (js_add temp 65) # letter)
      else Some letter)"

definition columnToLetter_double :: "real \<Rightarrow> string option" where
  "columnToLetter_double column = columnToLetter_double_loop column []"

text \<open>
  The same loop on whole numbers, with exact arithmetic: \<open>column - temp - 1\<close> is a
  multiple of 26 (lemma \<open>columnToLetter_division_exact\<close>), so the division is the integer
  quotient. On the column numbers up to \<open>2 ^ 53\<close> it is the loop above
  (lemma \<open>columnToLetter_double_loop_exact\<close>); the column indices of a sheet are in that
  range, and the conditional formatting is modelled with this form.
\<close>

function columnToLetter_loop :: "int \<Rightarrow> string \<Rightarrow> string" where
  "columnToLetter_loop column letter =
     (if column > 0
      then let temp = (column - 1) mod 26
           in columnToLetter_loop ((column - temp - 1) div 26) (char_of (temp + 65) # letter)
      else letter)"
  by pat_completeness auto
termination
  by (relation "measure (\<lambda>(column, letter). nat column)") auto

declare columnToLetter_loop.simps [simp del]

definition columnToLetter :: "int \<Rightarrow> string" where
  "columnToLetter column = columnToLetter_loop column []"

text \<open>The number a column name stands for in bijective base 26: A is 1, Z is 26, and a
  name \<open>w\<close> followed by a letter \<open>c\<close> is 26 times the number of \<open>w\<close> plus the number
  of \<open>c\<close>.\<close>

definition letterValue :: "char \<Rightarrow> int" where
  "letterValue c = of_char c - 64"

definition columnNumber :: "string \<Rightarrow> int" where
  "columnNumber w = foldl (\<lambda>acc c. 26 * acc + letterValue c) 0 w"

definition isColumnLetter :: "char \<Rightarrow> bool" where
  "isColumnLetter c = (1 \<le> letterValue c \<and> letterValue c \<le> 26)"


section \<open>Cell values, arrays and objects\<close>

text \<open>
  A cell of the source table, as \<open>getValues\<close> delivers it: a string (the empty string for
  an empty cell), a number or a boolean. Numbers are whole numbers here; date cells are
  not part of the model.
\<close>

datatype cell = CStr string | CNum int | CBool bool

text \<open>\<open>x.toString()\<close> of a cell value. It is also the property key under which a cell
  value indexes an object.\<close>

fun toString :: "cell \<Rightarrow> string" where
  "toString (CStr s) = s"
| "toString (CNum n) = show_int n"
| "toString (CBool b) = (if b then ''true'' else ''false'')"

text \<open>Truthiness, as the left operand of \<open>&&\<close> is tested.\<close>

fun truthy :: "cell \<Rightarrow> bool" where
  "truthy (CStr s) = (s \<noteq> [])"
| "truthy (CNum n) = (n \<noteq> 0)"
| "truthy (CBool b) = b"

text \<open>\<open>xs[i]\<close>: reading an array out of range gives \<open>undefined\<close>, here \<open>None\<close>.\<close>

definition elementAt :: "'a list \<Rightarrow> nat \<Rightarrow> 'a option" where
  "elementAt xs i = (if i < length xs then Some (xs ! i) else None)"

text \<open>
  The values the script computes with: a cell value, \<open>undefined\<close>, or a member that a
  plain object \<open>{}\<close> inherits from \<open>Object.prototype\<close> (named by its property key).
\<close>

datatype jsval = Cell cell | Undefined | Inherited string

definition jsval_of :: "cell option \<Rightarrow> jsval" where
  "jsval_of v = (case v of None \<Rightarrow> Undefined | Some c \<Rightarrow> Cell c)"

datatype js_error = TypeError

text \<open>
  A plain object \<open>{}\<close> used as a lookup table: its own properties, each holding what an
  array read gave. Its prototype is \<open>Object.prototype\<close>, whose property names are listed
  in \<open>objectPrototypeNames\<close>.
\<close>

type_synonym obj = "(string \<times> cell option) list"

definition objectPrototypeNames :: "string list" where
  "objectPrototypeNames =
     [''constructor'', ''hasOwnProperty'', ''isPrototypeOf'', ''propertyIsEnumerable'',
      ''toLocaleString'', ''toString'', ''valueOf'', ''__proto__'',
      ''__defineGetter__'', ''__defineSetter__'', ''__lookupGetter__'', ''__lookupSetter__'']"

text \<open>\<open>o[k] = v\<close> for a primitive or undefined \<open>v\<close>: the key \<open>__proto__\<close> reaches the
  setter of \<open>Object.prototype\<close>, which ignores such a value; every other key becomes an
  own property.\<close>

definition obj_set :: "obj \<Rightarrow> string \<Rightarrow> cell option \<Rightarrow> obj" where
  "obj_set ob k v = (if k = ''__proto__'' then ob else AList.update k v ob)"

text \<open>\<open>o[k]\<close>: the own property, else what the prototype has under that name.\<close>

definition obj_get :: "obj \<Rightarrow> string \<Rightarrow> jsval" where
  "obj_get ob k =
     (case map_of ob k of
        Some v \<Rightarrow> jsval_of v
      | None \<Rightarrow> if k \<in> set objectPrototypeNames then Inherited k else Undefined)"

text \<open>\<open>o.hasOwnProperty(k)\<close>: the method is looked up on the object first, so an own
  property named \<open>hasOwnProperty\<close> (a cell value, not a function) makes the call throw.\<close>

definition hasOwnProperty :: "obj \<Rightarrow> string \<Rightarrow> js_error + bool" where
  "hasOwnProperty ob k =
     (if map_of ob ''hasOwnProperty'' \<noteq> None then Inl TypeError
      else Inr (map_of ob k \<noteq> None))"

text \<open>A loop body that may throw, run over the elements of a list in order.\<close>

fun forEach :: "('a \<Rightarrow> 's \<Rightarrow> js_error + 's) \<Rightarrow> 'a list \<Rightarrow> 's \<Rightarrow> js_error + 's" where
  "forEach body [] s = Inr s"
| "forEach body (x # xs) s =
     (case body x s of Inl e \<Rightarrow> Inl e | Inr s' \<Rightarrow> forEach body xs s')"


section \<open>The layout detector\<close>

text \<open>The test of line 46.\<close>

definition isQuestionNumHeader :: "cell \<Rightarrow> bool" where
  "isQuestionNumHeader h = (toLowerCase (trim (toString h)) = ''questionnum'')"

text \<open>\<open>findFirstQuestionNumColumn\<close> (lines 44 to 51); \<open>i\<close> is the loop counter.\<close>

fun findFirstQuestionNumColumn_from :: "nat \<Rightarrow> cell list \<Rightarrow> int" where
  "findFirstQuestionNumColumn_from i [] = - 1"
| "findFirstQuestionNumColumn_from i (h # headers) =
     (if isQuestionNumHeader h then int i
      else findFirstQuestionNumColumn_from (Suc i) headers)"

definition findFirstQuestionNumColumn :: "cell list \<Rightarrow> int" where
  "findFirstQuestionNumColumn headers = findFirstQuestionNumColumn_from 0 headers"


section \<open>The question catalog\<close>

record catalog =
  questionIdentifiers :: "cell list"
  questionMaxMarks :: obj

text \<open>\<open>row[0].toString().trim().toLowerCase()\<close> (lines 84 and 140); \<open>row[0]\<close> of an
  empty row is undefined and the method call throws.\<close>

definition firstCell :: "cell list \<Rightarrow> js_error + string" where
  "firstCell row =
     (case elementAt row 0 of
        None \<Rightarrow> Inl TypeError
      | Some c \<Rightarrow> Inr (toLowerCase (trim (toString c))))"

text \<open>Lines 100 to 104: a question met for the first time is appended to the list and
  its max mark stored.\<close>

definition recordQuestion :: "cell \<Rightarrow> cell option \<Rightarrow> catalog \<Rightarrow> js_error + catalog" where
  "recordQuestion qIdentifier maxMark cat =
     (case hasOwnProperty (questionMaxMarks cat) (toString qIdentifier) of
        Inl e \<Rightarrow> Inl e
      | Inr True \<Rightarrow> Inr cat
      | Inr False \<Rightarrow>
          Inr \<lparr>questionIdentifiers = questionIdentifiers cat @ [qIdentifier],
               questionMaxMarks =
                 obj_set (questionMaxMarks cat) (toString qIdentifier) maxMark\<rparr>)"

text \<open>The body of the triplet loop of the first pass (lines 90 to 105).\<close>

definition catalogTriplet :: "nat \<Rightarrow> cell list \<Rightarrow> nat \<Rightarrow> catalog \<Rightarrow> js_error + catalog" where
  "catalogTriplet fixedColumns row t cat =
     (let qNumCol = fixedColumns + t * 3;
          maxMarkCol = fixedColumns + t * 3 + 2;
          qIdentifier = elementAt row qNumCol;
          maxMark = elementAt row maxMarkCol
      in case qIdentifier of
           None \<Rightarrow> Inr cat
         | Some q \<Rightarrow>
             if truthy q \<and> trim (toString q) \<noteq> []
             then recordQuestion q maxMark cat
             else Inr cat)"

text \<open>The body of the row loop of the first pass (lines 80 to 106).\<close>

definition catalogRow :: "nat \<Rightarrow> nat \<Rightarrow> cell list \<Rightarrow> catalog \<Rightarrow> js_error + catalog" where
  "catalogRow fixedColumns tripletCount row cat =
     (case firstCell row of
        Inl e \<Rightarrow> Inl e
      | Inr fc \<Rightarrow>
          if includes_str fc ''max marks'' \<or> fc = [] then Inr cat
          else forEach (catalogTriplet fixedColumns row) [0 ..< tripletCount] cat)"

text \<open>The first pass (lines 75 to 107): the rows after the header, top to bottom.\<close>

definition buildCatalog :: "nat \<Rightarrow> nat \<Rightarrow> cell list list \<Rightarrow> js_error + catalog" where
  "buildCatalog fixedColumns tripletCount sourceData =
     forEach (catalogRow fixedColumns tripletCount) (drop 1 sourceData)
       \<lparr>questionIdentifiers = [], questionMaxMarks = []\<rparr>"


section \<open>The row transposer and the output table\<close>

text \<open>The body of the triplet loop of the second pass (lines 152 to 163).\<close>

definition marksTriplet :: "nat \<Rightarrow> cell list \<Rightarrow> nat \<Rightarrow> obj \<Rightarrow> obj" where
  "marksTriplet fixedColumns row t marksMap =
     (let qNumCol = fixedColumns + t * 3;
          markCol = fixedColumns + t * 3 + 1;
          qIdentifier = elementAt row qNumCol;
          mark = elementAt row markCol
      in case qIdentifier of
           None \<Rightarrow> marksMap
         | Some q \<Rightarrow>
             if truthy q \<and> trim (toString q) \<noteq> []
             then obj_set marksMap (toString q) mark
             else marksMap)"

text \<open>One output row (lines 146 to 170).\<close>

definition outputRow :: "nat \<Rightarrow> nat \<Rightarrow> cell list \<Rightarrow> cell list \<Rightarrow> jsval list" where
  "outputRow fixedColumns tripletCount identifiers row =
     (let fixedData = take fixedColumns row;
          marksMap = fold (marksTriplet fixedColumns row) [0 ..< tripletCount] [];
          marks = map (\<lambda>q. if obj_get marksMap (toString q) \<noteq> Undefined
                            then obj_get marksMap (toString q) else Cell (CStr []))
                    identifiers
      in map Cell fixedData @ marks)"

text \<open>The body of the row loop of the second pass (lines 137 to 173).\<close>

definition transposeRow ::
  "nat \<Rightarrow> nat \<Rightarrow> cell list \<Rightarrow> cell list \<Rightarrow> jsval list list \<Rightarrow> js_error + jsval list list" where
  "transposeRow fixedColumns tripletCount identifiers row outputRows =
     (case firstCell row of
        Inl e \<Rightarrow> Inl e
      | Inr fc \<Rightarrow>
          if includes_str fc ''max marks'' \<or> fc = [] then Inr outputRows
          else Inr (outputRows @ [outputRow fixedColumns tripletCount identifiers row]))"

text \<open>The two header rows (lines 119 to 128).\<close>

definition headerRow1 :: "nat \<Rightarrow> cell list \<Rightarrow> catalog \<Rightarrow> jsval list" where
  "headerRow1 fixedColumns headerRow cat =
     map Cell (take fixedColumns headerRow) @ map Cell (questionIdentifiers cat)"

definition headerRow2 :: "nat \<Rightarrow> catalog \<Rightarrow> jsval list" where
  "headerRow2 fixedColumns cat =
     replicate fixedColumns (Cell (CStr []))
       @ map (\<lambda>q. obj_get (questionMaxMarks cat) (toString q)) (questionIdentifiers cat)"

text \<open>The output table (lines 119 to 174): the header rows, then the second pass.\<close>

definition buildOutputRows ::
  "nat \<Rightarrow> nat \<Rightarrow> cell list list \<Rightarrow> catalog \<Rightarrow> js_error + jsval list list" where
  "buildOutputRows fixedColumns tripletCount sourceData cat =
     forEach (transposeRow fixedColumns tripletCount (questionIdentifiers cat))
       (drop 1 sourceData)
       [headerRow1 fixedColumns (sourceData ! 0) cat, headerRow2 fixedColumns cat]"


section \<open>The destination sheet and the conditional formatting\<close>

text \<open>
  Numbers as \<open>parseFloat\<close> returns them. \<open>parseFloat\<close> itself belongs to the host and is
  a parameter of the model. The stops of a gradient are kept as numbers, not as their
  decimal strings.
\<close>

datatype jsnum = NaN | Num real | PosInfinity | NegInfinity

text \<open>\<open>isNaN(x) || x <= 0\<close> (line 235).\<close>

fun invalidMaxMark :: "jsnum \<Rightarrow> bool" where
  "invalidMaxMark NaN = True"
| "invalidMaxMark (Num x) = (x \<le> 0)"
| "invalidMaxMark PosInfinity = False"
| "invalidMaxMark NegInfinity = True"

text \<open>\<open>x / 2\<close>.\<close>

fun half :: "jsnum \<Rightarrow> jsnum" where
  "half NaN = NaN"
| "half (Num x) = Num (x / 2)"
| "half PosInfinity = PosInfinity"
| "half NegInfinity = NegInfinity"

text \<open>
  A conditional format rule as the builder calls of lines 248 to 261 set it up: a
  gradient with the colour and value of its minimum, middle and maximum point, or a
  text-equals rule with its text and background; each with the A1 notation of its range.
\<close>

datatype rule =
    GradientRule string jsnum string jsnum string jsnum string
  | TextEqualToRule string string string

fun ruleRange :: "rule \<Rightarrow> string" where
  "ruleRange (GradientRule c1 v1 c2 v2 c3 v3 r) = r"
| "ruleRange (TextEqualToRule t c r) = r"

record sheet =
  cellValues :: "jsval list list"
  conditionalFormatRules :: "rule list"

text \<open>\<open>getRange(r, c).getValue()\<close> with 1-based positions: what was written there; a
  cell never written reads as the empty string.\<close>

definition getValue :: "sheet \<Rightarrow> nat \<Rightarrow> nat \<Rightarrow> jsval" where
  "getValue sh r c =
     (case elementAt (cellValues sh) (r - 1) of
        None \<Rightarrow> Cell (CStr [])
      | Some row \<Rightarrow> (case elementAt row (c - 1) of None \<Rightarrow> Cell (CStr []) | Some v \<Rightarrow> v))"

text \<open>\<open>getLastRow()\<close>: the position of the last row that holds a non-empty value.\<close>

definition getLastRow :: "sheet \<Rightarrow> nat" where
  "getLastRow sh =
     length (dropWhile (list_all (\<lambda>v. v = Cell (CStr []))) (rev (cellValues sh)))"

text \<open>The body of the column loop of \<open>applyConditionalFormatting\<close> (lines 228 to 262).\<close>

definition formatColumn ::
  "(jsval \<Rightarrow> jsnum) \<Rightarrow> sheet \<Rightarrow> nat \<Rightarrow> nat \<Rightarrow> nat \<Rightarrow> rule list \<Rightarrow> rule list" where
  "formatColumn parseFloat sh fixedColumns lastRow i rules =
     (let colIndex = fixedColumns + 1 + i;
          maxMark = getValue sh 2 colIndex;
          numericMaxMark = parseFloat maxMark
      in if invalidMaxMark numericMaxMark then rules
         else
           let columnLetter = columnToLetter (int colIndex);
               rangeA1 = columnLetter @ ''3:'' @ columnLetter @ show_nat lastRow;
               colorScaleRule =
                 GradientRule ''#FF0000'' (Num 0) ''#FFC000'' (half numericMaxMark)
                   ''#00FF00'' numericMaxMark rangeA1;
               nValueRule = TextEqualToRule ''N'' ''#FF0000'' rangeA1
           in rules @ [colorScaleRule, nValueRule])"

text \<open>\<open>applyConditionalFormatting\<close> (lines 217 to 267).\<close>

definition applyConditionalFormatting ::
  "(jsval \<Rightarrow> jsnum) \<Rightarrow> sheet \<Rightarrow> nat \<Rightarrow> nat \<Rightarrow> sheet" where
  "applyConditionalFormatting parseFloat sh fixedColumns questionCount =
     (let lastRow = getLastRow sh;
          rules = fold (formatColumn parseFloat sh fixedColumns lastRow) [0 ..< questionCount] []
      in sh\<lparr>conditionalFormatRules := rules\<rparr>)"


section \<open>The run\<close>

text \<open>
  The messages of the script, one constructor for each \<open>alert\<close> call: line 32
  (\<open>NotEnoughData\<close>), line 57 (\<open>NoQuestionNumColumn\<close>), line 68 (\<open>NotMultipleOf3\<close>),
  line 180 (\<open>NoValidDataRows\<close>) and line 190 (\<open>Complete\<close>, with the names of the source
  and the output sheet).
\<close>

datatype alert =
    NotEnoughData
  | NoQuestionNumColumn
  | NotMultipleOf3
  | NoValidDataRows
  | Complete string string

text \<open>The spreadsheet as far as the run touches it: the sheet named \<open>Processed Data\<close>,
  if there is one, and the messages shown so far.\<close>

record spreadsheet =
  processedData :: "sheet option"
  alerts :: "alert list"

definition showAlert :: "alert \<Rightarrow> spreadsheet \<Rightarrow> spreadsheet" where
  "showAlert a ss = ss\<lparr>alerts := alerts ss @ [a]\<rparr>"

text \<open>A run ends by returning or by an uncaught exception; either way the spreadsheet is
  left as it was at that point.\<close>

datatype outcome = Returned spreadsheet | Thrown js_error spreadsheet

text \<open>
  \<open>rearrangeData\<close> (lines 16 to 191). The host calls are state updates: \<open>insertSheet\<close> and
  \<open>clearContents\<close> with \<open>clearConditionalFormatRules\<close> both leave an empty output sheet,
  \<open>setValues\<close> stores the rows it is given. Column widths are not modelled.
\<close>

definition rearrangeData ::
  "(jsval \<Rightarrow> jsnum) \<Rightarrow> string \<Rightarrow> cell list list \<Rightarrow> spreadsheet \<Rightarrow> outcome" where
  "rearrangeData parseFloat sourceSheetName sourceData ss =
     (if length sourceData < 2 then Returned (showAlert NotEnoughData ss)
      else
        let headerRow = sourceData ! 0;
            fixedColumnsIndex = findFirstQuestionNumColumn headerRow
        in if fixedColumnsIndex = - 1 then Returned (showAlert NoQuestionNumColumn ss)
           else
             let fixedColumns = nat fixedColumnsIndex;
                 totalColumns = length headerRow;
                 remainingColumns = totalColumns - fixedColumns
             in if remainingColumns mod 3 \<noteq> 0 then Returned (showAlert NotMultipleOf3 ss)
                else
                  let tripletCount = remainingColumns div 3
                  in case buildCatalog fixedColumns tripletCount sourceData of
                       Inl e \<Rightarrow> Thrown e ss
                     | Inr cat \<Rightarrow>
                         let outputSheet = \<lparr>cellValues = [], conditionalFormatRules = []\<rparr>;
                             ss1 = ss\<lparr>processedData := Some outputSheet\<rparr>
                         in (case buildOutputRows fixedColumns tripletCount sourceData cat of
                              Inl e \<Rightarrow> Thrown e ss1
                            | Inr outputRows \<Rightarrow>
                                if length outputRows > 0
                                then
                                  let written = outputSheet\<lparr>cellValues := outputRows\<rparr>;
                                      formatted =
                                        applyConditionalFormatting parseFloat written
                                          fixedColumns (length (questionIdentifiers cat));
                                      ss2 = ss1\<lparr>processedData := Some formatted\<rparr>
                                  in Returned
                                       (showAlert (Complete sourceSheetName ''Processed Data'') ss2)
                                else Returned (showAlert NoValidDataRows ss1)))"


section \<open>Notions of the specification\<close>

text \<open>A positive multiple of 3, as the layout contract words it.\<close>

definition positiveMultipleOf3 :: "int \<Rightarrow> bool" where
  "positiveMultipleOf3 d = (0 < d \<and> d mod 3 = 0)"

text \<open>The skip predicate, as the data model words it: the first value of the row, trimmed
  and lower-cased, is empty or contains \<open>max marks\<close>.\<close>

definition excludedRow :: "cell list \<Rightarrow> bool" where
  "excludedRow row =
     (case row of
        [] \<Rightarrow> False
      | c # cs \<Rightarrow>
          (let v = toLowerCase (trim (toString c)) in v = [] \<or> includes_str v ''max marks''))"

text \<open>
  The identifier cells on which the guard of lines 99 and 161 fails: no cell at all, a
  string that trims to the empty string, the number 0 and the boolean false.
\<close>

fun skippedIdentifier :: "cell option \<Rightarrow> bool" where
  "skippedIdentifier None = True"
| "skippedIdentifier (Some (CStr s)) = (trim s = [])"
| "skippedIdentifier (Some (CNum n)) = (n = 0)"
| "skippedIdentifier (Some (CBool b)) = (\<not> b)"

text \<open>What the two triplet loops do with a triplet that is not skipped: the bodies of
  the loops without their guard.\<close>

definition processCatalogTriplet ::
  "nat \<Rightarrow> cell list \<Rightarrow> nat \<Rightarrow> catalog \<Rightarrow> js_error + catalog" where
  "processCatalogTriplet fixedColumns row t cat =
     (case elementAt row (fixedColumns + t * 3) of
        None \<Rightarrow> Inr cat
      | Some q \<Rightarrow> recordQuestion q (elementAt row (fixedColumns + t * 3 + 2)) cat)"

definition processMarksTriplet :: "nat \<Rightarrow> cell list \<Rightarrow> nat \<Rightarrow> obj \<Rightarrow> obj" where
  "processMarksTriplet fixedColumns row t marksMap =
     (case elementAt row (fixedColumns + t * 3) of
        None \<Rightarrow> marksMap
      | Some q \<Rightarrow> obj_set marksMap (toString q) (elementAt row (fixedColumns + t * 3 + 1)))"

text \<open>The data rows of one column in A1 notation: from row 3 to the last row.\<close>

definition dataRange :: "nat \<Rightarrow> nat \<Rightarrow> string" where
  "dataRange colIndex lastRow =
     columnToLetter (int colIndex) @ ''3:'' @ columnToLetter (int colIndex) @ show_nat lastRow"

text \<open>
  The rules of one question column, as the threshold formatter is specified: for a max
  mark that parses to a number \<open>M > 0\<close>, a gradient with the stops 0, \<open>M / 2\<close> and \<open>M\<close>
  and a rule for the text \<open>N\<close>, both on the data rows of the column; otherwise none.
\<close>

definition columnRules :: "(jsval \<Rightarrow> jsnum) \<Rightarrow> sheet \<Rightarrow> nat \<Rightarrow> nat \<Rightarrow> rule list" where
  "columnRules parseFloat sh fixedColumns i =
     (let colIndex = fixedColumns + 1 + i;
          range = dataRange colIndex (getLastRow sh)
      in case parseFloat (getValue sh 2 colIndex) of
           Num m \<Rightarrow>
             if 0 < m
             then [GradientRule ''#FF0000'' (Num 0) ''#FFC000'' (Num (m / 2)) ''#00FF00'' (Num m) range,
                   TextEqualToRule ''N'' ''#FF0000'' range]
             else []
         | PosInfinity \<Rightarrow>
             [GradientRule ''#FF0000'' (Num 0) ''#FFC000'' PosInfinity ''#00FF00'' PosInfinity range,
              TextEqualToRule ''N'' ''#FF0000'' range]
         | NaN \<Rightarrow> []
         | NegInfinity \<Rightarrow> [])"

text \<open>
  An occurrence of a question in the scan: the identifier cell of a triplet that is not
  skipped, with the mark and the max mark read beside it.
\<close>

record occurrence =
  occIdentifier :: cell
  occMark :: "cell option"
  occMaxMark :: "cell option"

text \<open>The text of the identifier, under which the lookup tables file it.\<close>

definition occKey :: "occurrence \<Rightarrow> string" where
  "occKey x = toString (occIdentifier x)"

text \<open>The occurrences of one triplet (none or one), of one row, and of the whole scan:
  the rows that are not excluded from top to bottom, the triplets of a row from left to
  right.\<close>

definition tripletOccurrence :: "nat \<Rightarrow> cell list \<Rightarrow> nat \<Rightarrow> occurrence list" where
  "tripletOccurrence fixedColumns row t =
     (case elementAt row (fixedColumns + t * 3) of
        None \<Rightarrow> []
      | Some q \<Rightarrow>
          if skippedIdentifier (Some q) then []
          else [\<lparr>occIdentifier = q,
                 occMark = elementAt row (fixedColumns + t * 3 + 1),
                 occMaxMark = elementAt row (fixedColumns + t * 3 + 2)\<rparr>])"

definition rowOccurrences :: "nat \<Rightarrow> nat \<Rightarrow> cell list \<Rightarrow> occurrence list" where
  "rowOccurrences fixedColumns tripletCount row =
     concat (map (tripletOccurrence fixedColumns row) [0 ..< tripletCount])"

definition scanOccurrences :: "nat \<Rightarrow> nat \<Rightarrow> cell list list \<Rightarrow> occurrence list" where
  "scanOccurrences fixedColumns tripletCount sourceData =
     concat (map (rowOccurrences fixedColumns tripletCount)
               (filter (\<lambda>row. \<not> excludedRow row) (drop 1 sourceData)))"

text \<open>The first occurrence of each identifier, in the order of the scan.\<close>

fun firstOccurrences :: "occurrence list \<Rightarrow> occurrence list" where
  "firstOccurrences [] = []"
| "firstOccurrences (x # xs) = x # filter (\<lambda>y. occKey y \<noteq> occKey x) (firstOccurrences xs)"

text \<open>Lines 100 to 104, applied to an occurrence.\<close>

definition recordOccurrence :: "occurrence \<Rightarrow> catalog \<Rightarrow> js_error + catalog" where
  "recordOccurrence x cat = recordQuestion (occIdentifier x) (occMaxMark x) cat"

text \<open>The catalog that lists the first occurrences and stores their max marks.\<close>

definition catalogOf :: "occurrence list \<Rightarrow> catalog \<Rightarrow> bool" where
  "catalogOf xs cat \<longleftrightarrow>
     questionIdentifiers cat = map occIdentifier (firstOccurrences xs)
     \<and> map_of (questionMaxMarks cat)
         = map_of (map (\<lambda>x. (occKey x, occMaxMark x)) (firstOccurrences xs))"

text \<open>Line 162, applied to an occurrence.\<close>

definition storeMark :: "occurrence \<Rightarrow> obj \<Rightarrow> obj" where
  "storeMark x marksMap = obj_set marksMap (occKey x) (occMark x)"


section \<open>Examples\<close>

text \<open>For the examples: \<open>parseFloat\<close> on a number cell, and on values that do not start
  with a number (the examples use no other).\<close>

definition parseFloatExample :: "jsval \<Rightarrow> jsnum" where
  "parseFloatExample v = (case v of Cell (CNum n) \<Rightarrow> Num (of_int n) | _ \<Rightarrow> NaN)"

text \<open>The header rows of the examples, and a spreadsheet that holds an output sheet from an
  earlier run.\<close>

definition headerOneTriplet :: "cell list" where
  "headerOneTriplet = [CStr ''ID'', CStr ''QuestionNum'', CStr ''Mark'', CStr ''MaxMark'']"

definition headerTwoTriplets :: "cell list" where
  "headerTwoTriplets =
     [CStr ''ID'', CStr ''QuestionNum'', CStr ''Mark'', CStr ''MaxMark'',
      CStr ''QuestionNum'', CStr ''Mark'', CStr ''MaxMark'']"

definition oldSheet :: spreadsheet where
  "oldSheet =
     \<lparr>processedData =
        Some \<lparr>cellValues = [[Cell (CStr ''earlier result'')]], conditionalFormatRules = []\<rparr>,
      alerts = []\<rparr>"

text \<open>A table of the examples: two candidates and a summary row between them.\<close>

definition exampleTable :: "cell list list" where
  "exampleTable =
     [headerTwoTriplets,
      [CStr ''s1'', CStr ''Q1'', CNum 5, CNum 10, CStr ''Q2'', CNum 3, CNum 5],
      [CStr '' Max Marks'', CStr ''Q3'', CStr [], CNum 7, CStr [], CStr [], CStr []],
      [CStr ''s2'', CStr ''Q2'', CNum 4, CNum 5, CStr [], CStr [], CStr []]]"

definition exampleCatalog :: catalog where
  "exampleCatalog =
     \<lparr>questionIdentifiers = [CStr ''Q1'', CStr ''Q2''],
      questionMaxMarks = [(''Q1'', Some (CNum 10)), (''Q2'', Some (CNum 5))]\<rparr>"

definition exampleOutput :: "jsval list list" where
  "exampleOutput =
     [[Cell (CStr ''ID''), Cell (CStr ''Q1''), Cell (CStr ''Q2'')],
      [Cell (CStr []), Cell (CNum 10), Cell (CNum 5)],
      [Cell (CStr ''s1''), Cell (CNum 5), Cell (CNum 3)],
      [Cell (CStr ''s2''), Cell (CStr []), Cell (CNum 4)]]"

text \<open>A sheet of the examples: the max marks of its three question columns are 10, a
  text and 0.\<close>

definition exampleSheet :: sheet where
  "exampleSheet =
     \<lparr>cellValues =
        [[Cell (CStr ''ID''), Cell (CStr ''Q1''), Cell (CStr ''Q2''), Cell (CStr ''Q3'')],
         [Cell (CStr []), Cell (CNum 10), Cell (CStr ''n/a''), Cell (CNum 0)],
         [Cell (CStr ''s1''), Cell (CNum 5), Cell (CNum 3), Cell (CStr ''N'')],
         [Cell (CStr ''s2''), Cell (CStr []), Cell (CNum 4), Cell (CNum 1)]],
      conditionalFormatRules = []\<rparr>"


section \<open>Properties of the column letters\<close>

lemma columnToLetter_step:
  "column - (column - 1) mod 26 - 1 = 26 * ((column - 1) div 26)" for column :: int
  using mult_div_mod_eq [of 26 "column - 1"] by linarith

lemma columnToLetter_division_exact:
  "(column - (column - 1) mod 26 - 1) mod 26 = (0::int)"
  by (simp add: columnToLetter_step)

lemma columnNumber_append:
  "columnNumber (u @ v) = foldl (\<lambda>acc c. 26 * acc + letterValue c) (columnNumber u) v"
  by (simp add: columnNumber_def)

lemma foldl_letterValue_shift:
  "foldl (\<lambda>acc c. 26 * acc + letterValue c) a v = a * 26 ^ length v + columnNumber v"
proof (induction v arbitrary: a)
  case Nil
  show ?case by (simp add: columnNumber_def)
next
  case (Cons c v)
  have "foldl (\<lambda>acc c. 26 * acc + letterValue c) a (c # v)
        = (26 * a + letterValue c) * 26 ^ length v + columnNumber v"
    by (simp add: Cons.IH)
  also have "columnNumber (c # v) = letterValue c * 26 ^ length v + columnNumber v"
    using Cons.IH [of "letterValue c"] by (simp add: columnNumber_def)
  then have "(26 * a + letterValue c) * 26 ^ length v + columnNumber v
        = a * 26 ^ length (c # v) + columnNumber (c # v)"
    by (simp add: algebra_simps)
  finally show ?case .
qed

lemma letterValue_char_of:
  assumes "0 \<le> t" "t < (26::int)"
  shows "letterValue (char_of (t + 65)) = t + 1"
proof -
  have "of_char (char_of (t + 65)) = (t + 65) mod 256"
    by (simp only: of_char_of)
  also have "\<dots> = t + 65" using assms by simp
  finally show ?thesis by (simp add: letterValue_def)
qed

lemma columnToLetter_loop_letters:
  "\<forall>c \<in> set letter. isColumnLetter c \<Longrightarrow>
   \<forall>c \<in> set (columnToLetter_loop column letter). isColumnLetter c"
proof (induction column letter rule: columnToLetter_loop.induct)
  case (1 column letter)
  show ?case
  proof (cases "column > 0")
    case False
    then show ?thesis using "1.prems" by (simp add: columnToLetter_loop.simps)
  next
    case True
    define temp where "temp = (column - 1) mod 26"
    have t: "0 \<le> temp" "temp < 26" by (simp_all add: temp_def)
    have "isColumnLetter (char_of (temp + 65))"
      using t by (simp add: isColumnLetter_def letterValue_char_of)
    then have "\<forall>c \<in> set (char_of (temp + 65) # letter). isColumnLetter c"
      using "1.prems" by simp
    from "1.IH" [OF True temp_def this] show ?thesis
      using True by (subst columnToLetter_loop.simps) (simp add: temp_def Let_def)
  qed
qed

lemma columnToLetter_loop_number:
  "0 \<le> column \<Longrightarrow>
   columnNumber (columnToLetter_loop column letter)
     = column * 26 ^ length letter + columnNumber letter"
proof (induction column letter rule: columnToLetter_loop.induct)
  case (1 column letter)
  show ?case
  proof (cases "column > 0")
    case False
    with "1.prems" have "column = 0" by simp
    then show ?thesis by (simp add: columnToLetter_loop.simps)
  next
    case True
    define temp where "temp = (column - 1) mod 26"
    define q where "q = (column - temp - 1) div 26"
    have t: "0 \<le> temp" "temp < 26" by (simp_all add: temp_def)
    have q: "q = (column - 1) div 26"
      by (simp add: q_def temp_def columnToLetter_step)
    have q0: "0 \<le> q" using True by (simp add: q pos_imp_zdiv_nonneg_iff)
    have split: "column = 26 * q + temp + 1"
      unfolding q temp_def using mult_div_mod_eq [of 26 "column - 1"] by linarith
    have "columnNumber (char_of (temp + 65) # letter)
          = (temp + 1) * 26 ^ length letter + columnNumber letter"
      using foldl_letterValue_shift [of "letterValue (char_of (temp + 65))" letter] t
      by (simp add: columnNumber_def letterValue_char_of)
    moreover have "columnNumber (columnToLetter_loop q (char_of (temp + 65) # letter))
          = q * 26 ^ length (char_of (temp + 65) # letter)
            + columnNumber (char_of (temp + 65) # letter)"
      using "1.IH" [OF True temp_def] q0 by (simp add: q_def)
    moreover have "columnToLetter_loop column letter
          = columnToLetter_loop q (char_of (temp + 65) # letter)"
      using True by (subst columnToLetter_loop.simps) (simp add: temp_def q_def Let_def)
    ultimately show ?thesis
      by (simp add: split algebra_simps)
  qed
qed

lemma columnToLetter_nonempty: "1 \<le> column \<Longrightarrow> columnToLetter column \<noteq> []"
proof -
  assume "1 \<le> column"
  then have "columnNumber (columnToLetter column) = column"
    using columnToLetter_loop_number [of column "[]"]
    by (simp add: columnToLetter_def columnNumber_def)
  with \<open>1 \<le> column\<close> show ?thesis by (auto simp: columnNumber_def)
qed

lemma columnNumber_columnToLetter: "0 \<le> column \<Longrightarrow> columnNumber (columnToLetter column) = column"
  using columnToLetter_loop_number [of column "[]"]
  by (simp add: columnToLetter_def columnNumber_def)

lemma columnToLetter_letters: "\<forall>c \<in> set (columnToLetter column). isColumnLetter c"
  unfolding columnToLetter_def by (rule columnToLetter_loop_letters) simp

lemma columnToLetter_inj:
  "0 \<le> m \<Longrightarrow> 0 \<le> n \<Longrightarrow> columnToLetter m = columnToLetter n \<Longrightarrow> m = n"
  by (metis columnNumber_columnToLetter)

text \<open>The binary exponent of a positive number is what its definition says.\<close>

lemma binaryExponent_bounds:
  assumes "0 < x"
  shows "pow2 (binaryExponent x) \<le> x \<and> x < pow2 (binaryExponent x + 1)"
proof (cases "1 \<le> x")
  case True
  define k where "k = \<lfloor>x\<rfloor>"
  define b where "b = bitlen k"
  have k: "0 < k" using True by (simp add: k_def)
  from bitlen_bounds [OF k] have lo: "2 ^ nat (b - 1) \<le> k" and hi: "k < 2 ^ nat b"
    by (simp_all add: b_def)
  have b1: "1 \<le> b" using k bitlen_eq_zero_iff [of k] bitlen_nonneg [of k]
    by (simp add: b_def)
  have e: "binaryExponent x = b - 1" using True by (simp add: binaryExponent_def b_def k_def)
  have "real_of_int (2 ^ nat (b - 1)) \<le> real_of_int k" using lo by (simp only: of_int_le_iff)
  also have "\<dots> \<le> x" by (simp add: k_def)
  finally have l: "2 ^ nat (b - 1) \<le> x" by simp
  have k1: "k + 1 \<le> 2 ^ nat b" using hi by simp
  have "x < real_of_int (k + 1)" by (simp add: k_def)
  also have "\<dots> \<le> real_of_int (2 ^ nat b)" using k1 by (simp only: of_int_le_iff)
  also have "\<dots> = 2 ^ nat b" by simp
  finally have h: "x < 2 ^ nat b" .
  show ?thesis using l h b1 by (simp add: e pow2_def)
next
  case False
  with assms have x: "0 < x" "x < 1" by simp_all
  define y where "y = 1 / x"
  define j where "j = \<lceil>y\<rceil> - 1"
  define b where "b = bitlen j"
  have y1: "1 < y" using x by (simp add: y_def)
  have j: "0 < j" using y1 by (simp add: j_def)
  from bitlen_bounds [OF j] have lo: "2 ^ nat (b - 1) \<le> j" and hi: "j < 2 ^ nat b"
    by (simp_all add: b_def)
  have b1: "1 \<le> b" using j bitlen_eq_zero_iff [of j] bitlen_nonneg [of j]
    by (simp add: b_def)
  have e: "binaryExponent x = - b" using False by (simp add: binaryExponent_def b_def j_def y_def)
  have jy: "real_of_int j < y" by (simp add: j_def) linarith
  have "(2::real) ^ nat (b - 1) = real_of_int (2 ^ nat (b - 1))" by simp
  also have "\<dots> \<le> real_of_int j" using lo by (simp only: of_int_le_iff)
  also have "\<dots> < y" by (rule jy)
  finally have l: "2 ^ nat (b - 1) < y" .
  have j1: "j + 1 \<le> 2 ^ nat b" using hi by simp
  have "y \<le> real_of_int (j + 1)" by (simp add: j_def)
  also have "\<dots> \<le> real_of_int (2 ^ nat b)" using j1 by (simp only: of_int_le_iff)
  also have "\<dots> = 2 ^ nat b" by simp
  finally have h: "y \<le> 2 ^ nat b" .
  have p1: "1 / 2 ^ nat b \<le> x"
    using h x y1 by (simp add: y_def field_simps)
  have p2: "x < 1 / 2 ^ nat (b - 1)"
    using l x by (simp add: y_def field_simps)
  show ?thesis
  proof (cases "b = 1")
    case True
    with p1 x show ?thesis by (simp add: e pow2_def)
  next
    case False
    with b1 have "1 < b" by simp
    then have "nat (- (1 - b)) = nat (b - 1)" by simp
    with p1 p2 b1 \<open>1 < b\<close> show ?thesis by (simp add: e pow2_def)
  qed
qed

text \<open>The arithmetic of the source is exact on the whole numbers up to \<open>2 ^ 53\<close>: there
  the loop on doubles is the loop on whole numbers.\<close>

lemma pow2_pos: "0 < pow2 k"
  by (simp add: pow2_def)

lemma roundHalfEven_of_int: "roundHalfEven (of_int j) = j"
  by (simp add: roundHalfEven_def)

lemma roundDouble_of_int:
  assumes "0 \<le> k" and "k \<le> 2 ^ 53"
  shows "roundDouble (of_int k) = of_int k"
proof (cases "k = 0")
  case True
  then show ?thesis by (simp add: roundDouble_def)
next
  case False
  with assms have k: "0 < k" by simp
  define x :: real where "x = of_int k"
  define e where "e = bitlen k - 1"
  have x: "0 < x" "1 \<le> x" "\<lfloor>x\<rfloor> = k" using k by (simp_all add: x_def)
  have be: "binaryExponent x = e"
    using x by (simp add: binaryExponent_def e_def)
  from bitlen_bounds [OF k] have lo: "2 ^ nat e \<le> k"
    by (simp add: e_def)
  have e0: "0 \<le> e" using k bitlen_eq_zero_iff [of k] bitlen_nonneg [of k]
    by (simp add: e_def)
  have "(2::int) ^ nat e \<le> 2 ^ 53" using lo assms(2) by linarith
  then have e53: "nat e \<le> 53"
    using power_le_imp_le_exp [of "2::int" "nat e" 53] by simp
  have "\<exists>j. x / pow2 (e - 52) = of_int j"
  proof (cases "e \<le> 52")
    case True
    then have "pow2 (e - 52) = 1 / 2 ^ nat (52 - e)"
      by (cases "e = 52") (simp_all add: pow2_def)
    then have "x / pow2 (e - 52) = of_int (k * 2 ^ nat (52 - e))"
      by (simp add: x_def)
    then show ?thesis by blast
  next
    case False
    with e53 e0 have e: "e = 53" by linarith
    with lo assms(2) have "k = 2 ^ 53" by simp
    then have "x / pow2 (e - 52) = of_int (2 ^ 52)"
      by (simp add: e pow2_def x_def)
    then show ?thesis by blast
  qed
  then obtain j where j: "x / pow2 (e - 52) = of_int j" by blast
  have unscale: "of_int j * pow2 (e - 52) = x"
    using j pow2_pos [of "e - 52"] by (simp add: field_simps)
  have "roundDouble x = sgn x * of_int (roundHalfEven (\<bar>x\<bar> / pow2 (e - 52))) * pow2 (e - 52)"
    using x(1) by (simp add: roundDouble_def Let_def be)
  also have "\<dots> = of_int (roundHalfEven (x / pow2 (e - 52))) * pow2 (e - 52)"
    using x(1) by simp
  also have "\<dots> = x"
    by (simp only: j roundHalfEven_of_int unscale)
  finally show ?thesis by (simp only: x_def)
qed

lemma js_rem_of_int:
  assumes "0 \<le> a"
  shows "js_rem (of_int a) 26 = of_int (a mod 26)"
proof -
  have "js_trunc (of_int a / 26) = a div 26"
    using assms floor_divide_of_int_eq [of a 26, where ?'a = real]
    by (simp add: js_trunc_def)
  then have "js_rem (of_int a) 26 = of_int a - 26 * of_int (a div 26)"
    by (simp add: js_rem_def)
  also have "\<dots> = of_int (a - 26 * (a div 26))" by simp
  also have "a - 26 * (a div 26) = a mod 26" by (simp add: minus_mult_div_eq_mod)
  finally show ?thesis .
qed

lemma fromCharCode_of_int:
  assumes "0 \<le> c" and "c < 65536"
  shows "fromCharCode (of_int c) = char_of c"
proof -
  have "js_trunc (of_int c) = c" using assms by (simp add: js_trunc_def)
  moreover have "c mod 65536 = c" using assms by simp
  ultimately show ?thesis by (simp only: fromCharCode_def)
qed

lemma columnToLetter_double_loop_exact:
  "0 \<le> n \<Longrightarrow> n \<le> 2 ^ 53 \<Longrightarrow>
   columnToLetter_double_loop (of_int n) letter = Some (columnToLetter_loop n letter)"
proof (induction n letter rule: columnToLetter_loop.induct)
  case (1 column letter)
  show ?case
  proof (cases "column > 0")
    case False
    then show ?thesis
      by (subst columnToLetter_double_loop.simps) (simp add: columnToLetter_loop.simps)
  next
    case True
    define temp where "temp = (column - 1) mod 26"
    define q where "q = (column - temp - 1) div 26"
    have t: "0 \<le> temp" "temp < 26" by (simp_all add: temp_def)
    have q: "q = (column - 1) div 26"
      by (simp add: q_def temp_def columnToLetter_step)
    have q0: "0 \<le> q" using True by (simp add: q pos_imp_zdiv_nonneg_iff)
    have split: "column - temp - 1 = 26 * q"
      by (simp add: q temp_def columnToLetter_step)
    have qle: "q \<le> 2 ^ 53" using split t "1.prems" q0 by linarith
    have tle: "temp \<le> column - 1"
      unfolding temp_def using True zmod_le_nonneg_dividend [of "column - 1" 26] by simp
    have s1: "js_sub (of_int column) 1 = of_int (column - 1)"
      using roundDouble_of_int [of "column - 1"] True "1.prems" by (simp add: js_sub_def)
    have r: "js_rem (js_sub (of_int column) 1) 26 = of_int temp"
      using True js_rem_of_int [of "column - 1"] by (simp add: s1 temp_def)
    have a: "js_add (of_int temp) 65 = of_int (temp + 65)"
      using roundDouble_of_int [of "temp + 65"] t by (simp add: js_add_def)
    have ch: "fromCharCode (js_add (of_int temp) 65) = char_of (temp + 65)"
      using t fromCharCode_of_int [of "temp + 65"] by (simp add: a)
    have s2: "js_sub (of_int column) (of_int temp) = of_int (column - temp)"
      using roundDouble_of_int [of "column - temp"] t tle "1.prems" by (simp add: js_sub_def)
    have "js_sub (of_int (column - temp)) 1 = of_int (column - temp - 1)"
      using roundDouble_of_int [of "column - temp - 1"] t tle "1.prems"
      by (simp add: js_sub_def)
    then have s3: "js_sub (js_sub (of_int column) (of_int temp)) 1 = of_int (column - temp - 1)"
      by (simp only: s2)
    have "js_div (of_int (26 * q)) 26 = of_int q"
      using roundDouble_of_int [OF q0 qle] by (simp add: js_div_def)
    then have d: "js_div (js_sub (js_sub (of_int column) (of_int temp)) 1) 26 = of_int q"
      by (simp only: s3 split)
    have ih: "columnToLetter_double_loop (of_int q) (char_of (temp + 65) # letter)
        = Some (columnToLetter_loop q (char_of (temp + 65) # letter))"
      using "1.IH" [OF True temp_def] q0 qle by (simp add: q_def)
    have "columnToLetter_double_loop (of_int column) letter
        = columnToLetter_double_loop (of_int q) (char_of (temp + 65) # letter)"
      using True by (subst columnToLetter_double_loop.simps) (simp add: Let_def r ch d)
    moreover have "columnToLetter_loop column letter
        = columnToLetter_loop q (char_of (temp + 65) # letter)"
      using True by (subst columnToLetter_loop.simps) (simp add: temp_def q_def Let_def)
    ultimately show ?thesis using ih by simp
  qed
qed

lemma columnToLetter_double_exact:
  "0 \<le> n \<Longrightarrow> n \<le> 2 ^ 53 \<Longrightarrow> columnToLetter_double (of_int n) = Some (columnToLetter n)"
  by (simp add: columnToLetter_double_def columnToLetter_def columnToLetter_double_loop_exact)

text \<open>The loop on doubles, one pass at a time, for evaluating it on a given number.\<close>

lemmas js_ops = js_sub_def js_add_def js_div_def js_rem_def js_trunc_def fromCharCode_def
  roundDouble_def roundHalfEven_def binaryExponent_def pow2_def compute_bitlen char_of_def

lemma columnToLetter_double_loop_step:
  "0 < column \<Longrightarrow>
   columnToLetter_double_loop column letter =
   columnToLetter_double_loop
     (js_div (js_sub (js_sub column (js_rem (js_sub column 1) 26)) 1) 26)
     (fromCharCode (js_add (js_rem (js_sub column 1) 26) 65) # letter)"
  by (subst columnToLetter_double_loop.simps) (simp add: Let_def)

lemma columnToLetter_double_loop_end:
  "\<not> 0 < column \<Longrightarrow> columnToLetter_double_loop column letter = Some letter"
  by (subst columnToLetter_double_loop.simps) simp

text \<open>
  Claim C10, amended. For every whole column number \<open>n\<close> from 1 to \<open>2 ^ 53\<close> the loop of
  \<open>columnToLetter\<close> ends and returns the bijective base-26 name of \<open>n\<close>: a non-empty word
  over A to Z whose number is \<open>n\<close>. Two column numbers in that range have the same name
  only when they are equal.
\<close>

theorem columnToLetter_bijective_base26:
  assumes "1 \<le> n" and "n \<le> 2 ^ 53" and "1 \<le> m" and "m \<le> 2 ^ 53"
  shows "columnToLetter_double (of_int n) = Some (columnToLetter n)
       \<and> columnToLetter n \<noteq> []
       \<and> (\<forall>c \<in> set (columnToLetter n). isColumnLetter c)
       \<and> columnNumber (columnToLetter n) = n
       \<and> (columnToLetter_double (of_int m) = columnToLetter_double (of_int n) \<longleftrightarrow> m = n)"
proof -
  have n: "columnToLetter_double (of_int n) = Some (columnToLetter n)"
    and m: "columnToLetter_double (of_int m) = Some (columnToLetter m)"
    using assms by (simp_all add: columnToLetter_double_exact)
  have "columnToLetter m = columnToLetter n \<longleftrightarrow> m = n"
    using assms columnToLetter_inj [of m n] by auto
  with assms n m show ?thesis
    by (simp add: columnToLetter_nonempty columnToLetter_letters columnNumber_columnToLetter)
qed

theorem columnToLetter_bijective_base26_witness:
  "(1::int) \<le> 27 \<and> (27::int) \<le> 2 ^ 53 \<and> (1::int) \<le> 1 \<and> (1::int) \<le> 2 ^ 53
   \<and> columnToLetter_double 1 = Some ''A'' \<and> columnToLetter_double 26 = Some ''Z''
   \<and> columnToLetter_double 27 = Some ''AA''
   \<and> columnNumber ''AA'' = 27
   \<and> (columnToLetter_double 1 = columnToLetter_double 27 \<longleftrightarrow> (1::int) = 27)"
proof -
  have h: "(1::int) \<le> 27" "(27::int) \<le> 2 ^ 53" "(1::int) \<le> 1" "(1::int) \<le> 2 ^ 53"
    by simp_all
  note t = columnToLetter_bijective_base26 [OF h]
  have e: "columnToLetter 27 = ''AA''" by code_simp
  have c: "of_int 27 = (27::real)" "of_int 1 = (1::real)" by simp_all
  from t have "columnToLetter_double (of_int 27) = Some (columnToLetter 27)"
    by (rule conjunct1)
  then have aa: "columnToLetter_double 27 = Some ''AA''"
    by (simp only: c e)
  from t have "columnNumber (columnToLetter 27) = 27"
    by (rule conjunct2 [THEN conjunct2, THEN conjunct2, THEN conjunct1])
  then have n: "columnNumber ''AA'' = 27"
    by (simp only: e)
  from t have "columnToLetter_double (of_int 1) = columnToLetter_double (of_int 27)
        \<longleftrightarrow> (1::int) = 27"
    by (rule conjunct2 [THEN conjunct2, THEN conjunct2, THEN conjunct2])
  then have i: "columnToLetter_double 1 = columnToLetter_double 27 \<longleftrightarrow> (1::int) = 27"
    by (simp only: c)
  have a: "columnToLetter_double 1 = Some ''A''"
    by (simp add: columnToLetter_double_def columnToLetter_double_loop_step
        columnToLetter_double_loop_end js_ops)
  have z: "columnToLetter_double 26 = Some ''Z''"
    by (simp add: columnToLetter_double_def columnToLetter_double_loop_step
        columnToLetter_double_loop_end js_ops)
  show ?thesis
    by (intro conjI h a z aa n i)
qed

text \<open>
  Claim C10 as stated fails beyond \<open>2 ^ 53\<close>. At the column number 9007199254740994
  (\<open>2 ^ 53 + 2\<close>) the difference \<open>column - 1\<close> is not a double and rounds to \<open>2 ^ 53\<close>; the
  loop returns the name of 9007199254740993. The column numbers 9007199254741012 and
  9007199254741014 get the same name.
\<close>

theorem columnToLetter_beyond_exact_range:
  "columnToLetter_double 9007199254740994 = Some ''BKTXHSOGHKKG''
   \<and> columnNumber ''BKTXHSOGHKKG'' = 9007199254740993
   \<and> columnToLetter_double 9007199254741012 = Some ''BKTXHSOGHKLA''
   \<and> columnToLetter_double 9007199254741014 = Some ''BKTXHSOGHKLA''"
proof -
  have a: "columnToLetter_double 9007199254740994 = Some ''BKTXHSOGHKKG''"
    by (simp add: columnToLetter_double_def columnToLetter_double_loop_step
        columnToLetter_double_loop_end js_ops)
  have b: "columnNumber ''BKTXHSOGHKKG'' = 9007199254740993"
    by (simp add: columnNumber_def letterValue_def)
  have c: "columnToLetter_double 9007199254741012 = Some ''BKTXHSOGHKLA''"
    by (simp add: columnToLetter_double_def columnToLetter_double_loop_step
        columnToLetter_double_loop_end js_ops)
  have d: "columnToLetter_double 9007199254741014 = Some ''BKTXHSOGHKLA''"
    by (simp add: columnToLetter_double_def columnToLetter_double_loop_step
        columnToLetter_double_loop_end js_ops)
  show ?thesis
    by (intro conjI a b c d)
qed

section \<open>The layout detector: properties\<close>

lemma findFirst_from_none:
  "findFirstQuestionNumColumn_from i headers = - 1 \<longleftrightarrow> \<not> list_ex isQuestionNumHeader headers"
proof (induction headers arbitrary: i)
  case Nil
  show ?case by simp
next
  case (Cons h headers)
  show ?case using Cons.IH [of "Suc i"] by simp
qed

lemma findFirst_from_found:
  "list_ex isQuestionNumHeader headers \<Longrightarrow>
   \<exists>k. findFirstQuestionNumColumn_from i headers = int (i + k) \<and> k < length headers
      \<and> isQuestionNumHeader (headers ! k) \<and> \<not> list_ex isQuestionNumHeader (take k headers)"
proof (induction headers arbitrary: i)
  case Nil
  then show ?case by simp
next
  case (Cons h headers)
  show ?case
  proof (cases "isQuestionNumHeader h")
    case True
    then have "findFirstQuestionNumColumn_from i (h # headers) = int (i + 0) \<and> 0 < length (h # headers)
      \<and> isQuestionNumHeader ((h # headers) ! 0) \<and> \<not> list_ex isQuestionNumHeader (take 0 (h # headers))"
      by simp
    then show ?thesis by blast
  next
    case False
    with Cons.prems have "list_ex isQuestionNumHeader headers" by simp
    from Cons.IH [OF this, of "Suc i"] obtain k where
      k: "findFirstQuestionNumColumn_from (Suc i) headers = int (Suc i + k)" "k < length headers"
         "isQuestionNumHeader (headers ! k)" "\<not> list_ex isQuestionNumHeader (take k headers)"
      by blast
    with False have "findFirstQuestionNumColumn_from i (h # headers) = int (i + Suc k) \<and> Suc k < length (h # headers)
      \<and> isQuestionNumHeader ((h # headers) ! Suc k) \<and> \<not> list_ex isQuestionNumHeader (take (Suc k) (h # headers))"
      by simp
    then show ?thesis by blast
  qed
qed

lemma findFirst_found:
  assumes "list_ex isQuestionNumHeader headers"
  shows "0 \<le> findFirstQuestionNumColumn headers
       \<and> nat (findFirstQuestionNumColumn headers) < length headers
       \<and> isQuestionNumHeader (headers ! nat (findFirstQuestionNumColumn headers))
       \<and> \<not> list_ex isQuestionNumHeader (take (nat (findFirstQuestionNumColumn headers)) headers)"
proof -
  from findFirst_from_found [OF assms, of 0] obtain k where
    "findFirstQuestionNumColumn headers = int k" "k < length headers"
    "isQuestionNumHeader (headers ! k)" "\<not> list_ex isQuestionNumHeader (take k headers)"
    by (auto simp: findFirstQuestionNumColumn_def)
  then show ?thesis by simp
qed

lemma findFirst_none:
  "findFirstQuestionNumColumn headers = - 1 \<longleftrightarrow> \<not> list_ex isQuestionNumHeader headers"
  by (simp add: findFirstQuestionNumColumn_def findFirst_from_none)

lemma showAlert_inject: "showAlert a ss = showAlert b ss \<longleftrightarrow> a = b"
proof
  assume "showAlert a ss = showAlert b ss"
  then have "alerts (showAlert a ss) = alerts (showAlert b ss)" by simp
  then show "a = b" by (simp add: showAlert_def)
qed simp

lemma showAlert_other:
  assumes "alerts ss' = alerts ss" and "a \<noteq> b"
  shows "showAlert a ss' \<noteq> showAlert b ss"
proof
  assume "showAlert a ss' = showAlert b ss"
  then have "alerts (showAlert a ss') = alerts (showAlert b ss)" by simp
  then have "alerts ss' @ [a] = alerts ss @ [b]" by (simp add: showAlert_def)
  with assms show False by simp
qed

text \<open>
  Claim C6. In a run on a table of at least two rows: \<open>findFirstQuestionNumColumn\<close>
  returns -1 exactly when no header cell, trimmed and lower-cased, equals
  \<open>questionnum\<close>, and otherwise the index of the first such cell, which is the number of
  fixed columns. The run ends with the message of line 57 exactly when there is no such
  cell, and with the message of line 68 exactly when there is one and the number of
  columns from it on is not a positive multiple of 3. In both cases the spreadsheet is
  returned with the message added and the output sheet as it was.
\<close>

theorem layout_detector:
  assumes "2 \<le> length sourceData"
  shows
    "let headers = sourceData ! 0;
         k = findFirstQuestionNumColumn headers;
         run = rearrangeData parseFloat sourceSheetName sourceData ss
     in (k = - 1 \<longleftrightarrow> \<not> list_ex isQuestionNumHeader headers)
      \<and> (list_ex isQuestionNumHeader headers \<longrightarrow>
           0 \<le> k \<and> nat k < length headers \<and> isQuestionNumHeader (headers ! nat k)
           \<and> \<not> list_ex isQuestionNumHeader (take (nat k) headers))
      \<and> (run = Returned (showAlert NoQuestionNumColumn ss)
           \<longleftrightarrow> \<not> list_ex isQuestionNumHeader headers)
      \<and> (run = Returned (showAlert NotMultipleOf3 ss)
           \<longleftrightarrow> list_ex isQuestionNumHeader headers
               \<and> \<not> positiveMultipleOf3 (int (length headers) - k))
      \<and> processedData (showAlert NoQuestionNumColumn ss) = processedData ss
      \<and> processedData (showAlert NotMultipleOf3 ss) = processedData ss"
proof -
  define headers where "headers = sourceData ! 0"
  define k where "k = findFirstQuestionNumColumn headers"
  define run where "run = rearrangeData parseFloat sourceSheetName sourceData ss"
  have none: "k = - 1 \<longleftrightarrow> \<not> list_ex isQuestionNumHeader headers"
    by (simp add: k_def findFirst_none)
  have found: "list_ex isQuestionNumHeader headers \<longrightarrow>
           0 \<le> k \<and> nat k < length headers \<and> isQuestionNumHeader (headers ! nat k)
           \<and> \<not> list_ex isQuestionNumHeader (take (nat k) headers)"
    using findFirst_found [of headers] by (simp add: k_def)
  have len: "\<not> length sourceData < 2" using assms by simp
  have r1: "run = Returned (showAlert NoQuestionNumColumn ss)
           \<longleftrightarrow> \<not> list_ex isQuestionNumHeader headers"
  proof (cases "list_ex isQuestionNumHeader headers")
    case False
    then have "k = - 1" using none by simp
    then have "run = Returned (showAlert NoQuestionNumColumn ss)"
      using len by (simp add: run_def rearrangeData_def k_def headers_def Let_def)
    with False show ?thesis by simp
  next
    case True
    then have kk: "k \<noteq> - 1" using none by simp
    have "run \<noteq> Returned (showAlert NoQuestionNumColumn ss)"
      using len kk
      by (auto simp: run_def rearrangeData_def k_def headers_def Let_def showAlert_inject
            showAlert_other split: sum.splits)
    with True show ?thesis by simp
  qed
  have r2: "run = Returned (showAlert NotMultipleOf3 ss)
           \<longleftrightarrow> list_ex isQuestionNumHeader headers
               \<and> \<not> positiveMultipleOf3 (int (length headers) - k)"
  proof (cases "list_ex isQuestionNumHeader headers")
    case False
    then have "k = - 1" using none by simp
    then have "run = Returned (showAlert NoQuestionNumColumn ss)"
      using len by (simp add: run_def rearrangeData_def k_def headers_def Let_def)
    with False show ?thesis by (simp add: showAlert_inject)
  next
    case True
    then have kk: "k \<noteq> - 1" "0 \<le> k" "nat k < length headers" using none found by simp_all
    then have d: "int (length headers) - k = int (length headers - nat k)" by simp
    have pm: "positiveMultipleOf3 (int (length headers) - k) \<longleftrightarrow> (length headers - nat k) mod 3 = 0"
      unfolding d positiveMultipleOf3_def using kk
      by (metis of_nat_0_less_iff of_nat_mod of_nat_numeral of_nat_eq_0_iff zero_less_diff)
    show ?thesis
    proof (cases "(length headers - nat k) mod 3 = 0")
      case False
      then have "run = Returned (showAlert NotMultipleOf3 ss)"
        using len kk by (simp add: run_def rearrangeData_def k_def headers_def Let_def)
      with True False pm show ?thesis by simp
    next
      case m: True
      have "run \<noteq> Returned (showAlert NotMultipleOf3 ss)"
        using len kk m
        by (auto simp: run_def rearrangeData_def k_def headers_def Let_def showAlert_inject
            showAlert_other split: sum.splits)
      with True m pm show ?thesis by simp
    qed
  qed
  show ?thesis
    using none found r1 r2
    unfolding Let_def headers_def [symmetric] k_def [symmetric] run_def [symmetric]
    by (simp add: showAlert_def)
qed


theorem layout_detector_witness:
  "2 \<le> length [[CStr ''ID'', CStr '' questionNUM '', CStr ''Mark''], [CStr ''s1'', CStr ''Q1'', CNum 5]]
   \<and> list_ex isQuestionNumHeader [CStr ''ID'', CStr '' questionNUM '', CStr ''Mark'']
   \<and> findFirstQuestionNumColumn [CStr ''ID'', CStr '' questionNUM '', CStr ''Mark''] = 1
   \<and> rearrangeData parseFloatExample ''Sheet1''
         [[CStr ''ID'', CStr '' questionNUM '', CStr ''Mark''], [CStr ''s1'', CStr ''Q1'', CNum 5]] oldSheet
       = Returned (showAlert NotMultipleOf3 oldSheet)"
proof -
  let ?t = "[[CStr ''ID'', CStr '' questionNUM '', CStr ''Mark''], [CStr ''s1'', CStr ''Q1'', CNum 5]]"
  have l: "2 \<le> length ?t" by simp
  have f: "findFirstQuestionNumColumn (?t ! 0) = 1" by code_simp
  have q: "list_ex isQuestionNumHeader (?t ! 0)" by code_simp
  have m: "\<not> positiveMultipleOf3 (int (length (?t ! 0)) - 1)"
    by (simp add: positiveMultipleOf3_def)
  from layout_detector [OF l, of parseFloatExample "''Sheet1''" oldSheet]
  have "rearrangeData parseFloatExample ''Sheet1'' ?t oldSheet
          = Returned (showAlert NotMultipleOf3 oldSheet)
        \<longleftrightarrow> list_ex isQuestionNumHeader (?t ! 0)
            \<and> \<not> positiveMultipleOf3 (int (length (?t ! 0)) - findFirstQuestionNumColumn (?t ! 0))"
    unfolding Let_def by blast
  with q m f have "rearrangeData parseFloatExample ''Sheet1'' ?t oldSheet
          = Returned (showAlert NotMultipleOf3 oldSheet)"
    by simp
  with l q f show ?thesis by simp
qed

section \<open>The empty result\<close>

lemma forEach_invariant:
  assumes "forEach body xs s = Inr s'" and "P s"
    and "\<And>x s s'. x \<in> set xs \<Longrightarrow> P s \<Longrightarrow> body x s = Inr s' \<Longrightarrow> P s'"
  shows "P s'"
  using assms
proof (induction xs arbitrary: s)
  case Nil
  then show ?case by simp
next
  case (Cons x xs)
  from Cons.prems(1) obtain s1 where s1: "body x s = Inr s1" "forEach body xs s1 = Inr s'"
    by (auto split: sum.splits)
  have "P s1" using Cons.prems(3) [of x s s1] Cons.prems(2) s1 by simp
  show ?case
  proof (rule Cons.IH [OF s1(2) \<open>P s1\<close>])
    fix y t t'
    assume "y \<in> set xs" "P t" "body y t = Inr t'"
    then show "P t'" using Cons.prems(3) [of y t t'] by simp
  qed
qed

text \<open>The output table always starts with the two header rows, so the test of line 177
  never fails and the message of line 180 is never shown.\<close>

lemma buildOutputRows_length:
  assumes "buildOutputRows fixedColumns tripletCount sourceData cat = Inr outputRows"
  shows "2 \<le> length outputRows"
proof (rule forEach_invariant [where P = "\<lambda>rows. 2 \<le> length rows",
      OF assms [unfolded buildOutputRows_def]])
  show "2 \<le> length [headerRow1 fixedColumns (sourceData ! 0) cat, headerRow2 fixedColumns cat]"
    by simp
next
  fix row and rows rows' :: "jsval list list"
  assume "2 \<le> length rows"
    and "transposeRow fixedColumns tripletCount (questionIdentifiers cat) row rows = Inr rows'"
  then show "2 \<le> length rows'"
    by (auto simp: transposeRow_def split: sum.splits if_splits)
qed

lemma showAlert_same_alert:
  assumes "showAlert a s = showAlert b s'"
  shows "a = b"
proof -
  from assms have "alerts (showAlert a s) = alerts (showAlert b s')" by simp
  then have "alerts s @ [a] = alerts s' @ [b]" by (simp add: showAlert_def)
  then show ?thesis by simp
qed

text \<open>No run ends by showing the message of line 180.\<close>

lemma no_valid_rows_alert_unreachable:
  "rearrangeData parseFloat sourceSheetName sourceData ss
     \<noteq> Returned (showAlert NoValidDataRows ss')"
proof
  assume run: "rearrangeData parseFloat sourceSheetName sourceData ss
     = Returned (showAlert NoValidDataRows ss')"
  let ?fixed = "nat (findFirstQuestionNumColumn (sourceData ! 0))"
  let ?count = "(length (sourceData ! 0) - ?fixed) div 3"
  show False
  proof (cases "buildCatalog ?fixed ?count sourceData")
    case (Inl e)
    with run show False
      by (auto simp: rearrangeData_def Let_def split: if_splits dest: showAlert_same_alert)
  next
    case cat: (Inr cat)
    show False
    proof (cases "buildOutputRows ?fixed ?count sourceData cat")
      case (Inl e)
      with run cat show False
        by (auto simp: rearrangeData_def Let_def split: if_splits dest: showAlert_same_alert)
    next
      case out: (Inr outputRows)
      from buildOutputRows_length [OF out] have "0 < length outputRows" by auto
      with run cat out show False
        by (auto simp: rearrangeData_def Let_def split: if_splits dest: showAlert_same_alert)
    qed
  qed
qed

text \<open>
  Claim C1, at a table whose only data row is a \<open>Max marks\<close> row, run on a spreadsheet
  that has an output sheet from an earlier run. No data row survives. The run does not
  show the message of line 180: it replaces the contents of the output sheet by the two
  header rows and reports completion.
\<close>

theorem rearrangeData_no_surviving_row:
  "rearrangeData parseFloat ''Sheet1''
     [headerOneTriplet, [CStr ''Max marks'', CStr ''Q1'', CNum 5, CNum 10]] oldSheet
   = Returned
       \<lparr>processedData =
          Some \<lparr>cellValues = [[Cell (CStr ''ID'')], [Cell (CStr [])]],
                conditionalFormatRules = []\<rparr>,
        alerts = [Complete ''Sheet1'' ''Processed Data'']\<rparr>"
  by code_simp

section \<open>The skip predicate\<close>

lemma includes_str_iff: "includes_str s p \<longleftrightarrow> (\<exists>a b. s = a @ p @ b)"
proof (induction s)
  case Nil
  show ?case by auto
next
  case (Cons c cs)
  show ?case
  proof
    assume "includes_str (c # cs) p"
    then consider "take (length p) (c # cs) = p" | "includes_str cs p" by auto
    then show "\<exists>a b. c # cs = a @ p @ b"
    proof cases
      case 1
      then have "c # cs = [] @ p @ drop (length p) (c # cs)"
        by (metis append_Nil append_take_drop_id)
      then show ?thesis by blast
    next
      case 2
      with Cons.IH obtain a b where "cs = a @ p @ b" by blast
      then have "c # cs = (c # a) @ p @ b" by simp
      then show ?thesis by blast
    qed
  next
    assume "\<exists>a b. c # cs = a @ p @ b"
    then obtain a b where ab: "c # cs = a @ p @ b" by blast
    show "includes_str (c # cs) p"
    proof (cases a)
      case Nil
      with ab have "take (length p) (c # cs) = p" by simp
      then show ?thesis by simp
    next
      case (Cons x a')
      with ab have "cs = a' @ p @ b" by simp
      with Cons.IH have "includes_str cs p" by blast
      then show ?thesis by simp
    qed
  qed
qed

lemma firstCell_Cons: "firstCell (c # cs) = Inr (toLowerCase (trim (toString c)))"
  by (simp add: firstCell_def elementAt_def)

lemma catalogRow_excluded:
  "row \<noteq> [] \<Longrightarrow>
   catalogRow fixedColumns tripletCount row cat =
     (if excludedRow row then Inr cat
      else forEach (catalogTriplet fixedColumns row) [0 ..< tripletCount] cat)"
  by (cases row) (auto simp: catalogRow_def firstCell_Cons excludedRow_def Let_def)

lemma transposeRow_excluded:
  "row \<noteq> [] \<Longrightarrow>
   transposeRow fixedColumns tripletCount identifiers row outputRows =
     (if excludedRow row then Inr outputRows
      else Inr (outputRows @ [outputRow fixedColumns tripletCount identifiers row]))"
  by (cases row) (auto simp: transposeRow_def firstCell_Cons excludedRow_def Let_def)

lemma catalog_rows_filter:
  "\<forall>row \<in> set rows. row \<noteq> [] \<Longrightarrow>
   forEach (catalogRow fixedColumns tripletCount) rows cat =
   forEach (\<lambda>row. forEach (catalogTriplet fixedColumns row) [0 ..< tripletCount])
     (filter (\<lambda>row. \<not> excludedRow row) rows) cat"
proof (induction rows arbitrary: cat)
  case Nil
  show ?case by simp
next
  case (Cons row rows)
  then have ne: "row \<noteq> []" and rest: "\<forall>row \<in> set rows. row \<noteq> []" by simp_all
  show ?case
    using Cons.IH [OF rest] by (simp add: catalogRow_excluded [OF ne] split: sum.splits)
qed

lemma transpose_rows_filter:
  "\<forall>row \<in> set rows. row \<noteq> [] \<Longrightarrow>
   forEach (transposeRow fixedColumns tripletCount identifiers) rows outputRows =
   Inr (outputRows @ map (outputRow fixedColumns tripletCount identifiers)
                       (filter (\<lambda>row. \<not> excludedRow row) rows))"
proof (induction rows arbitrary: outputRows)
  case Nil
  show ?case by simp
next
  case (Cons row rows)
  then have ne: "row \<noteq> []" and rest: "\<forall>row \<in> set rows. row \<noteq> []" by simp_all
  show ?case
    using Cons.IH [OF rest] by (simp add: transposeRow_excluded [OF ne])
qed

text \<open>
  Claim C7. In a table whose data rows have at least one cell, both passes treat a data
  row by the skip predicate alone: the catalog is what the triplet scan gives on the rows
  that are not excluded, in their order, and the output table is the two header rows
  followed by one transposed row for each row that is not excluded. An excluded row
  contributes to neither.
\<close>

theorem skip_predicate:
  assumes "\<forall>row \<in> set (drop 1 sourceData). row \<noteq> []"
  shows "buildCatalog fixedColumns tripletCount sourceData =
           forEach (\<lambda>row. forEach (catalogTriplet fixedColumns row) [0 ..< tripletCount])
             (filter (\<lambda>row. \<not> excludedRow row) (drop 1 sourceData))
             \<lparr>questionIdentifiers = [], questionMaxMarks = []\<rparr>
       \<and> buildOutputRows fixedColumns tripletCount sourceData cat =
           Inr ([headerRow1 fixedColumns (sourceData ! 0) cat, headerRow2 fixedColumns cat]
                @ map (outputRow fixedColumns tripletCount (questionIdentifiers cat))
                    (filter (\<lambda>row. \<not> excludedRow row) (drop 1 sourceData)))"
  unfolding buildCatalog_def buildOutputRows_def
  using catalog_rows_filter [OF assms] transpose_rows_filter [OF assms] by simp

theorem skip_predicate_witness:
  "buildCatalog 1 2 exampleTable = Inr exampleCatalog
   \<and> buildOutputRows 1 2 exampleTable exampleCatalog = Inr exampleOutput
   \<and> filter (\<lambda>row. \<not> excludedRow row) (drop 1 exampleTable)
       = [[CStr ''s1'', CStr ''Q1'', CNum 5, CNum 10, CStr ''Q2'', CNum 3, CNum 5],
          [CStr ''s2'', CStr ''Q2'', CNum 4, CNum 5, CStr [], CStr [], CStr []]]"
proof -
  have ne: "\<forall>row \<in> set (drop 1 exampleTable). row \<noteq> []"
    by (simp add: exampleTable_def)
  have kept: "filter (\<lambda>row. \<not> excludedRow row) (drop 1 exampleTable)
       = [[CStr ''s1'', CStr ''Q1'', CNum 5, CNum 10, CStr ''Q2'', CNum 3, CNum 5],
          [CStr ''s2'', CStr ''Q2'', CNum 4, CNum 5, CStr [], CStr [], CStr []]]"
    by code_simp
  have scan: "forEach (\<lambda>row. forEach (catalogTriplet 1 row) [0 ..< 2])
       [[CStr ''s1'', CStr ''Q1'', CNum 5, CNum 10, CStr ''Q2'', CNum 3, CNum 5],
        [CStr ''s2'', CStr ''Q2'', CNum 4, CNum 5, CStr [], CStr [], CStr []]]
       \<lparr>questionIdentifiers = [], questionMaxMarks = []\<rparr> = Inr exampleCatalog"
    by code_simp
  have rows: "[headerRow1 1 (exampleTable ! 0) exampleCatalog, headerRow2 1 exampleCatalog]
       @ map (outputRow 1 2 (questionIdentifiers exampleCatalog))
           [[CStr ''s1'', CStr ''Q1'', CNum 5, CNum 10, CStr ''Q2'', CNum 3, CNum 5],
            [CStr ''s2'', CStr ''Q2'', CNum 4, CNum 5, CStr [], CStr [], CStr []]]
       = exampleOutput"
    by code_simp
  from skip_predicate [OF ne, of 1 2 exampleCatalog] kept scan rows
  show ?thesis by simp
qed

section \<open>The length of the output rows\<close>

lemma outputRow_length:
  "fixedColumns \<le> length row \<Longrightarrow>
   length (outputRow fixedColumns tripletCount identifiers row) = fixedColumns + length identifiers"
  by (simp add: outputRow_def Let_def)

text \<open>
  Claim C2. For a rectangular source table (every row has \<open>totalColumns\<close> cells, and the
  fixed columns are among them), every data row of the output table, that is every row
  after the two header rows, has as many cells as there are fixed columns and
  identifiers in the catalog, whatever the triplets of its source row hold.
\<close>

theorem output_row_length:
  assumes rect: "\<forall>row \<in> set sourceData. length row = totalColumns"
    and fixed: "fixedColumns \<le> totalColumns"
    and out: "buildOutputRows fixedColumns tripletCount sourceData cat = Inr outputRows"
  shows "\<forall>outputRow \<in> set (drop 2 outputRows).
           length outputRow = fixedColumns + length (questionIdentifiers cat)"
proof -
  let ?n = "fixedColumns + length (questionIdentifiers cat)"
  let ?P = "\<lambda>rows. 2 \<le> length rows \<and> (\<forall>r \<in> set (drop 2 rows). length r = ?n)"
  have "?P outputRows"
  proof (rule forEach_invariant [where P = ?P, OF out [unfolded buildOutputRows_def]])
    show "?P [headerRow1 fixedColumns (sourceData ! 0) cat, headerRow2 fixedColumns cat]"
      by simp
  next
    fix row and rows rows' :: "jsval list list"
    assume row: "row \<in> set (drop 1 sourceData)" and P: "?P rows"
      and step: "transposeRow fixedColumns tripletCount (questionIdentifiers cat) row rows = Inr rows'"
    from row have "row \<in> set sourceData" by (rule in_set_dropD)
    with rect fixed have "fixedColumns \<le> length row" by simp
    then have len: "length (outputRow fixedColumns tripletCount (questionIdentifiers cat) row) = ?n"
      by (rule outputRow_length)
    from step consider "rows' = rows"
      | "rows' = rows @ [outputRow fixedColumns tripletCount (questionIdentifiers cat) row]"
      by (auto simp: transposeRow_def split: sum.splits if_splits)
    then show "?P rows'"
    proof cases
      case 1
      with P show ?thesis by simp
    next
      case 2
      with P len show ?thesis by auto
    qed
  qed
  then show ?thesis by simp
qed


theorem output_row_length_witness:
  "buildOutputRows 1 2 exampleTable exampleCatalog = Inr exampleOutput
   \<and> list_all (\<lambda>outputRow. length outputRow = 1 + length (questionIdentifiers exampleCatalog))
         (drop 2 exampleOutput)
   \<and> drop 2 exampleOutput
       = [[Cell (CStr ''s1''), Cell (CNum 5), Cell (CNum 3)],
          [Cell (CStr ''s2''), Cell (CStr []), Cell (CNum 4)]]"
proof -
  have rect: "\<forall>row \<in> set exampleTable. length row = 7"
    by (simp add: exampleTable_def headerTwoTriplets_def)
  have fixed: "(1::nat) \<le> 7" by simp
  have out: "buildOutputRows 1 2 exampleTable exampleCatalog = Inr exampleOutput"
    by code_simp
  from output_row_length [OF rect fixed out]
  have "list_all (\<lambda>outputRow. length outputRow = 1 + length (questionIdentifiers exampleCatalog))
         (drop 2 exampleOutput)"
    by (simp only: list_all_iff)
  moreover have "drop 2 exampleOutput
       = [[Cell (CStr ''s1''), Cell (CNum 5), Cell (CNum 3)],
          [Cell (CStr ''s2''), Cell (CStr []), Cell (CNum 4)]]"
    by (simp add: exampleOutput_def)
  ultimately show ?thesis using out by simp
qed

section \<open>Blank question identifiers\<close>

lemma dropWhile_keeps: "x \<in> set xs \<Longrightarrow> \<not> P x \<Longrightarrow> x \<in> set (dropWhile P xs)"
  by (induction xs) auto

lemma trim_Nil: "trim [] = []"
  by (simp add: trim_def)

lemma trim_nonempty: "x \<in> set s \<Longrightarrow> \<not> isWhiteSpace x \<Longrightarrow> trim s \<noteq> []"
proof -
  assume x: "x \<in> set s" "\<not> isWhiteSpace x"
  then have "x \<in> set (rev (dropWhile isWhiteSpace s))"
    by (simp add: dropWhile_keeps)
  then have "x \<in> set (dropWhile isWhiteSpace (rev (dropWhile isWhiteSpace s)))"
    using x(2) by (rule dropWhile_keeps)
  then have "x \<in> set (trim s)" by (simp add: trim_def)
  then show "trim s \<noteq> []" by (cases "trim s") simp_all
qed

lemma digit_not_space: "d < 10 \<Longrightarrow> \<not> isWhiteSpace (char_of (48 + d))" for d :: nat
proof -
  assume "d < 10"
  have "of_char (char_of (48 + d)) = (48 + d) mod 256"
    by (simp only: of_char_of)
  with \<open>d < 10\<close> have "(of_char (char_of (48 + d)) :: nat) = 48 + d" by simp
  with \<open>d < 10\<close> show ?thesis by (simp add: isWhiteSpace_def)
qed

lemma show_nat_digit: "\<exists>d :: nat. d < 10 \<and> char_of (48 + d) \<in> set (show_nat n)"
proof (cases "n < 10")
  case True
  then have "char_of (48 + n) \<in> set (show_nat n)" by (subst show_nat.simps) simp
  with True show ?thesis by blast
next
  case False
  then have "char_of (48 + n mod 10) \<in> set (show_nat n)" by (subst show_nat.simps) simp
  moreover have "n mod 10 < 10" by simp
  ultimately show ?thesis by blast
qed

lemma trim_show_int: "trim (show_int n) \<noteq> []"
proof -
  define m where "m = (if n < 0 then nat (- n) else nat n)"
  obtain d :: nat where d: "d < 10" "char_of (48 + d) \<in> set (show_nat m)"
    using show_nat_digit by blast
  have "show_int n = (if n < 0 then CHR ''-'' # show_nat m else show_nat m)"
    by (simp add: show_int_def m_def)
  with d(2) have "char_of (48 + d) \<in> set (show_int n)" by simp
  with d(1) show ?thesis using trim_nonempty digit_not_space by blast
qed

lemma trim_true: "trim ''true'' \<noteq> []"
  by (simp add: trim_def isWhiteSpace_def)

lemma guard_skippedIdentifier:
  "truthy q \<and> trim (toString q) \<noteq> [] \<longleftrightarrow> \<not> skippedIdentifier (Some q)"
proof (cases q)
  case (CStr s)
  then show ?thesis by (auto simp: trim_Nil)
next
  case (CNum n)
  then show ?thesis by (simp add: trim_show_int)
next
  case (CBool b)
  then show ?thesis by (simp add: trim_true)
qed

lemma catalogTriplet_guard:
  "catalogTriplet fixedColumns row t cat =
     (if skippedIdentifier (elementAt row (fixedColumns + t * 3)) then Inr cat
      else processCatalogTriplet fixedColumns row t cat)"
proof (cases "elementAt row (fixedColumns + t * 3)")
  case None
  then show ?thesis by (simp add: catalogTriplet_def processCatalogTriplet_def)
next
  case (Some q)
  then show ?thesis
    using guard_skippedIdentifier [of q]
    by (auto simp: catalogTriplet_def processCatalogTriplet_def Let_def)
qed

lemma marksTriplet_guard:
  "marksTriplet fixedColumns row t marksMap =
     (if skippedIdentifier (elementAt row (fixedColumns + t * 3)) then marksMap
      else processMarksTriplet fixedColumns row t marksMap)"
proof (cases "elementAt row (fixedColumns + t * 3)")
  case None
  then show ?thesis by (simp add: marksTriplet_def processMarksTriplet_def)
next
  case (Some q)
  then show ?thesis
    using guard_skippedIdentifier [of q]
    by (auto simp: marksTriplet_def processMarksTriplet_def Let_def)
qed

lemma forEach_skip:
  "forEach (\<lambda>x s. if skip x then Inr s else body x s) xs s
   = forEach body (filter (\<lambda>x. \<not> skip x) xs) s"
  by (induction xs arbitrary: s) (auto split: sum.splits)

lemma fold_skip:
  "fold (\<lambda>x s. if skip x then s else body x s) xs s
   = fold body (filter (\<lambda>x. \<not> skip x) xs) s"
  by (induction xs arbitrary: s) auto

text \<open>
  In both passes the triplet loop over a row does what its unguarded body does on exactly
  the triplets whose identifier cell passes the guard of lines 99 and 161, in their
  order. The cells that do not pass are: no cell, a string that trims to the empty
  string, the number 0 and the boolean false.
\<close>

lemma triplet_guard_filter:
  "forEach (catalogTriplet fixedColumns row) [0 ..< tripletCount] cat
     = forEach (processCatalogTriplet fixedColumns row)
         (filter (\<lambda>t. \<not> skippedIdentifier (elementAt row (fixedColumns + t * 3)))
            [0 ..< tripletCount]) cat
   \<and> fold (marksTriplet fixedColumns row) [0 ..< tripletCount] marksMap
     = fold (processMarksTriplet fixedColumns row)
         (filter (\<lambda>t. \<not> skippedIdentifier (elementAt row (fixedColumns + t * 3)))
            [0 ..< tripletCount]) marksMap"
proof -
  have c: "catalogTriplet fixedColumns row
      = (\<lambda>t cat. if skippedIdentifier (elementAt row (fixedColumns + t * 3)) then Inr cat
                  else processCatalogTriplet fixedColumns row t cat)"
    by (intro ext) (rule catalogTriplet_guard)
  have m: "marksTriplet fixedColumns row
      = (\<lambda>t marksMap. if skippedIdentifier (elementAt row (fixedColumns + t * 3)) then marksMap
                  else processMarksTriplet fixedColumns row t marksMap)"
    by (intro ext) (rule marksTriplet_guard)
  show ?thesis
    unfolding c m by (simp only: forEach_skip fold_skip)
qed

text \<open>
  Claim C9, at a row whose question identifier is the number 0. The cell reads \<open>0\<close> after
  \<open>toString\<close> and \<open>trim\<close>, which is not the empty string, yet the guard
  \<open>qIdentifier && ...\<close> fails on it: both loops skip the triplet, the catalog stays empty
  and the mark 5 is left out of the output. The same row with the text \<open>0\<close> as
  identifier is processed.
\<close>

theorem number_zero_identifier_skipped:
  "trim (toString (CNum 0)) = ''0''
   \<and> buildCatalog 1 1 [headerOneTriplet, [CStr ''s1'', CNum 0, CNum 5, CNum 10]]
      = Inr \<lparr>questionIdentifiers = [], questionMaxMarks = []\<rparr>
   \<and> fold (marksTriplet 1 [CStr ''s1'', CNum 0, CNum 5, CNum 10]) [0 ..< 1] [] = []
   \<and> buildOutputRows 1 1 [headerOneTriplet, [CStr ''s1'', CNum 0, CNum 5, CNum 10]]
        \<lparr>questionIdentifiers = [], questionMaxMarks = []\<rparr>
      = Inr [[Cell (CStr ''ID'')], [Cell (CStr [])], [Cell (CStr ''s1'')]]
   \<and> buildCatalog 1 1 [headerOneTriplet, [CStr ''s1'', CStr ''0'', CNum 5, CNum 10]]
      = Inr \<lparr>questionIdentifiers = [CStr ''0''],
             questionMaxMarks = [(''0'', Some (CNum 10))]\<rparr>
   \<and> buildOutputRows 1 1 [headerOneTriplet, [CStr ''s1'', CStr ''0'', CNum 5, CNum 10]]
        \<lparr>questionIdentifiers = [CStr ''0''], questionMaxMarks = [(''0'', Some (CNum 10))]\<rparr>
      = Inr [[Cell (CStr ''ID''), Cell (CStr ''0'')],
             [Cell (CStr []), Cell (CNum 10)],
             [Cell (CStr ''s1''), Cell (CNum 5)]]"
  by code_simp

section \<open>The conditional formatting\<close>

lemma formatColumn_columnRules:
  "formatColumn parseFloat sh fixedColumns (getLastRow sh) i rules
     = rules @ columnRules parseFloat sh fixedColumns i"
  by (cases "parseFloat (getValue sh 2 (fixedColumns + 1 + i))")
     (simp_all add: formatColumn_def columnRules_def dataRange_def Let_def)

lemma fold_formatColumn:
  "fold (formatColumn parseFloat sh fixedColumns (getLastRow sh)) xs rules
     = rules @ concat (map (columnRules parseFloat sh fixedColumns) xs)"
  by (induction xs arbitrary: rules) (simp_all add: formatColumn_columnRules)

lemma three_not_letter: "\<not> isColumnLetter CHR ''3''"
  by (simp add: isColumnLetter_def letterValue_def)

lemma dataRange_letters:
  "takeWhile isColumnLetter (dataRange colIndex lastRow) = columnToLetter (int colIndex)"
proof -
  have "takeWhile isColumnLetter (dataRange colIndex lastRow)
      = columnToLetter (int colIndex)
        @ takeWhile isColumnLetter (''3:'' @ columnToLetter (int colIndex) @ show_nat lastRow)"
    unfolding dataRange_def using columnToLetter_letters
    by (intro takeWhile_append2) simp
  then show ?thesis by (simp add: three_not_letter)
qed

lemma dataRange_inj: "dataRange c lastRow = dataRange c' lastRow \<Longrightarrow> c = c'"
proof -
  assume "dataRange c lastRow = dataRange c' lastRow"
  then have "columnToLetter (int c) = columnToLetter (int c')"
    using dataRange_letters by metis
  then have "int c = int c'" by (intro columnToLetter_inj) simp_all
  then show ?thesis by simp
qed

lemma columnRules_range:
  "r \<in> set (columnRules parseFloat sh fixedColumns i) \<Longrightarrow>
   ruleRange r = dataRange (fixedColumns + 1 + i) (getLastRow sh)"
  by (cases "parseFloat (getValue sh 2 (fixedColumns + 1 + i))")
     (auto simp: columnRules_def Let_def split: if_splits)

lemma filter_concat_map_unique:
  assumes "distinct xs" and "i \<in> set xs"
    and "\<forall>r \<in> set (f i). P r"
    and "\<forall>j \<in> set xs. j \<noteq> i \<longrightarrow> (\<forall>r \<in> set (f j). \<not> P r)"
  shows "filter P (concat (map f xs)) = f i"
  using assms(1,2,4)
proof (induction xs)
  case Nil
  then show ?case by simp
next
  case (Cons x xs)
  show ?case
  proof (cases "x = i")
    case True
    with Cons.prems have "i \<notin> set xs" by simp
    with Cons.prems have "\<forall>j \<in> set xs. \<forall>r \<in> set (f j). \<not> P r" by auto
    then have "filter P (concat (map f xs)) = []" by (induction xs) auto
    moreover have "filter P (f i) = f i" using assms(3) by (simp add: filter_id_conv)
    ultimately show ?thesis using True by simp
  next
    case False
    with Cons.prems have "filter P (f x) = []" by (auto simp: filter_empty_conv)
    moreover have "filter P (concat (map f xs)) = f i"
      using Cons.IH Cons.prems False by auto
    ultimately show ?thesis by simp
  qed
qed

text \<open>
  Claim C8. The rules that \<open>applyConditionalFormatting\<close> sets are, column by column in
  order, the rules of \<open>columnRules\<close>: for a question column whose max mark in header row 2
  parses to a number \<open>M > 0\<close>, one gradient rule with the stops 0, \<open>M / 2\<close>, \<open>M\<close> and one
  rule for the text \<open>N\<close>, both on rows 3 to the last row of that column; for a column
  whose max mark does not parse to a number or parses to \<open>M \<le> 0\<close>, none. The rules on the
  range of a question column are exactly the rules of that column. The function is total
  (no column raises an error) and leaves the cell values as they are.
\<close>

theorem formatting_rules:
  "conditionalFormatRules (applyConditionalFormatting parseFloat sh fixedColumns questionCount)
     = concat (map (columnRules parseFloat sh fixedColumns) [0 ..< questionCount])
   \<and> cellValues (applyConditionalFormatting parseFloat sh fixedColumns questionCount)
     = cellValues sh
   \<and> (\<forall>i < questionCount.
        filter (\<lambda>r. ruleRange r = dataRange (fixedColumns + 1 + i) (getLastRow sh))
          (conditionalFormatRules
             (applyConditionalFormatting parseFloat sh fixedColumns questionCount))
        = columnRules parseFloat sh fixedColumns i)"
proof -
  let ?rules = "conditionalFormatRules
      (applyConditionalFormatting parseFloat sh fixedColumns questionCount)"
  have all: "?rules = concat (map (columnRules parseFloat sh fixedColumns) [0 ..< questionCount])"
    by (simp add: applyConditionalFormatting_def Let_def fold_formatColumn)
  have one: "filter (\<lambda>r. ruleRange r = dataRange (fixedColumns + 1 + i) (getLastRow sh)) ?rules
        = columnRules parseFloat sh fixedColumns i" if "i < questionCount" for i
    unfolding all
  proof (rule filter_concat_map_unique)
    show "distinct [0 ..< questionCount]" by simp
    show "i \<in> set [0 ..< questionCount]" using that by simp
    show "\<forall>r \<in> set (columnRules parseFloat sh fixedColumns i).
            ruleRange r = dataRange (fixedColumns + 1 + i) (getLastRow sh)"
      by (simp add: columnRules_range)
    show "\<forall>j \<in> set [0 ..< questionCount]. j \<noteq> i \<longrightarrow>
            (\<forall>r \<in> set (columnRules parseFloat sh fixedColumns j).
               ruleRange r \<noteq> dataRange (fixedColumns + 1 + i) (getLastRow sh))"
    proof (intro ballI impI)
      fix j r
      assume "j \<noteq> i" and "r \<in> set (columnRules parseFloat sh fixedColumns j)"
      then have "ruleRange r = dataRange (fixedColumns + 1 + j) (getLastRow sh)"
        by (simp add: columnRules_range)
      with \<open>j \<noteq> i\<close> show "ruleRange r \<noteq> dataRange (fixedColumns + 1 + i) (getLastRow sh)"
        using dataRange_inj [of "fixedColumns + 1 + j" "getLastRow sh" "fixedColumns + 1 + i"]
        by auto
    qed
  qed
  show ?thesis using all one
    by (simp add: applyConditionalFormatting_def Let_def)
qed


theorem formatting_rules_witness:
  "conditionalFormatRules (applyConditionalFormatting parseFloatExample exampleSheet 1 3)
     = [GradientRule ''#FF0000'' (Num 0) ''#FFC000'' (Num 5) ''#00FF00'' (Num 10) ''B3:B4'',
        TextEqualToRule ''N'' ''#FF0000'' ''B3:B4'']
   \<and> filter (\<lambda>r. ruleRange r = ''B3:B4'')
        (conditionalFormatRules (applyConditionalFormatting parseFloatExample exampleSheet 1 3))
     = [GradientRule ''#FF0000'' (Num 0) ''#FFC000'' (Num 5) ''#00FF00'' (Num 10) ''B3:B4'',
        TextEqualToRule ''N'' ''#FF0000'' ''B3:B4'']
   \<and> filter (\<lambda>r. ruleRange r = ''C3:C4'')
        (conditionalFormatRules (applyConditionalFormatting parseFloatExample exampleSheet 1 3))
     = []
   \<and> filter (\<lambda>r. ruleRange r = ''D3:D4'')
        (conditionalFormatRules (applyConditionalFormatting parseFloatExample exampleSheet 1 3))
     = []"
proof -
  let ?rules = "conditionalFormatRules (applyConditionalFormatting parseFloatExample exampleSheet 1 3)"
  note t = formatting_rules [of parseFloatExample exampleSheet 1 3]
  have e: "concat (map (columnRules parseFloatExample exampleSheet 1) [0 ..< 3])
     = [GradientRule ''#FF0000'' (Num 0) ''#FFC000'' (Num 5) ''#00FF00'' (Num 10) ''B3:B4'',
        TextEqualToRule ''N'' ''#FF0000'' ''B3:B4'']"
    by code_simp
  have c0: "columnRules parseFloatExample exampleSheet 1 0
     = [GradientRule ''#FF0000'' (Num 0) ''#FFC000'' (Num 5) ''#00FF00'' (Num 10) ''B3:B4'',
        TextEqualToRule ''N'' ''#FF0000'' ''B3:B4'']"
    by code_simp
  have c1: "columnRules parseFloatExample exampleSheet 1 1 = []" by code_simp
  have c2: "columnRules parseFloatExample exampleSheet 1 2 = []" by code_simp
  have r0: "dataRange (1 + 1 + 0) (getLastRow exampleSheet) = ''B3:B4''" by code_simp
  have r1: "dataRange (1 + 1 + 1) (getLastRow exampleSheet) = ''C3:C4''" by code_simp
  have r2: "dataRange (1 + 1 + 2) (getLastRow exampleSheet) = ''D3:D4''" by code_simp
  from t have all: "?rules = concat (map (columnRules parseFloatExample exampleSheet 1) [0 ..< 3])"
    by (rule conjunct1)
  from t have each: "\<forall>i < 3.
        filter (\<lambda>r. ruleRange r = dataRange (1 + 1 + i) (getLastRow exampleSheet)) ?rules
        = columnRules parseFloatExample exampleSheet 1 i"
    by (rule conjunct2 [THEN conjunct2])
  have lt: "(0::nat) < 3" "(1::nat) < 3" "(2::nat) < 3" by simp_all
  have "filter (\<lambda>r. ruleRange r = ''B3:B4'') ?rules = columnRules parseFloatExample exampleSheet 1 0"
    using each [rule_format, OF lt(1)] by (simp only: r0)
  moreover
  have "filter (\<lambda>r. ruleRange r = ''C3:C4'') ?rules = columnRules parseFloatExample exampleSheet 1 1"
    using each [rule_format, OF lt(2)] by (simp only: r1)
  moreover
  have "filter (\<lambda>r. ruleRange r = ''D3:D4'') ?rules = columnRules parseFloatExample exampleSheet 1 2"
    using each [rule_format, OF lt(3)] by (simp only: r2)
  ultimately show ?thesis
    unfolding c0 c1 c2 using all e by simp
qed

section \<open>Identifiers that name a member of Object.prototype\<close>

text \<open>
  The two lookup tables of the script are plain objects. A question identifier whose text
  is the name of a member of \<open>Object.prototype\<close> is looked up there as well, and the
  identifier \<open>__proto__\<close> is never stored.
\<close>

text \<open>
  Claim C5, at a table whose first candidate has a mark for the question named
  \<open>constructor\<close> and whose second candidate has no question at all. The catalog holds
  \<open>constructor\<close>. In the row of the second candidate \<open>marksMap\<close> is empty, and
  \<open>marksMap[q]\<close> is the inherited constructor, which is not \<open>undefined\<close>: the output cell
  is that value, not the empty string.
\<close>

theorem blank_fill_inherited_member:
  "buildCatalog 1 1
     [headerOneTriplet,
      [CStr ''s1'', CStr ''constructor'', CNum 5, CNum 10],
      [CStr ''s2'', CStr [], CStr [], CStr []]]
   = Inr \<lparr>questionIdentifiers = [CStr ''constructor''],
          questionMaxMarks = [(''constructor'', Some (CNum 10))]\<rparr>
   \<and> fold (marksTriplet 1 [CStr ''s2'', CStr [], CStr [], CStr []]) [0 ..< 1] [] = []
   \<and> buildOutputRows 1 1
     [headerOneTriplet,
      [CStr ''s1'', CStr ''constructor'', CNum 5, CNum 10],
      [CStr ''s2'', CStr [], CStr [], CStr []]]
     \<lparr>questionIdentifiers = [CStr ''constructor''],
      questionMaxMarks = [(''constructor'', Some (CNum 10))]\<rparr>
   = Inr [[Cell (CStr ''ID''), Cell (CStr ''constructor'')],
          [Cell (CStr []), Cell (CNum 10)],
          [Cell (CStr ''s1''), Cell (CNum 5)],
          [Cell (CStr ''s2''), Inherited ''constructor'']]"
  by code_simp

text \<open>
  Claim C3, at a table whose only question is named \<open>__proto__\<close>, with max mark 10. The
  assignment of line 103 stores nothing, and header row 2 receives what
  \<open>questionMaxMarks[q]\<close> inherits under that name, not the max mark 10.
\<close>

theorem max_mark_of_proto_identifier:
  "buildCatalog 1 1 [headerOneTriplet, [CStr ''s1'', CStr ''__proto__'', CNum 5, CNum 10]]
   = Inr \<lparr>questionIdentifiers = [CStr ''__proto__''], questionMaxMarks = []\<rparr>
   \<and> headerRow2 1 \<lparr>questionIdentifiers = [CStr ''__proto__''], questionMaxMarks = []\<rparr>
   = [Cell (CStr []), Inherited ''__proto__'']"
  by code_simp

text \<open>
  Claim C4, at a table of two candidates who both answered the questions \<open>__proto__\<close> and
  \<open>Q1\<close>. \<open>hasOwnProperty\<close> never finds \<open>__proto__\<close>, so line 102 appends it at each
  occurrence: the question columns are \<open>__proto__\<close>, \<open>Q1\<close>, \<open>__proto__\<close>, while the order of
  first appearance is \<open>__proto__\<close>, \<open>Q1\<close>.
\<close>

theorem column_order_of_proto_identifier:
  "buildCatalog 1 2
     [headerTwoTriplets,
      [CStr ''s1'', CStr ''__proto__'', CNum 5, CNum 10, CStr ''Q1'', CNum 3, CNum 5],
      [CStr ''s2'', CStr ''__proto__'', CNum 4, CNum 10, CStr ''Q1'', CNum 2, CNum 5]]
   = Inr \<lparr>questionIdentifiers = [CStr ''__proto__'', CStr ''Q1'', CStr ''__proto__''],
          questionMaxMarks = [(''Q1'', Some (CNum 5))]\<rparr>
   \<and> headerRow1 1 headerTwoTriplets
       \<lparr>questionIdentifiers = [CStr ''__proto__'', CStr ''Q1'', CStr ''__proto__''],
        questionMaxMarks = [(''Q1'', Some (CNum 5))]\<rparr>
   = [Cell (CStr ''ID''), Cell (CStr ''__proto__''), Cell (CStr ''Q1''), Cell (CStr ''__proto__'')]"
  by code_simp

section \<open>The catalog and the marks by occurrences\<close>

text \<open>
  Apart from the identifiers that name a member of \<open>Object.prototype\<close>, the two passes
  do what the catalog builder and the row transposer are specified to do. The lemmas of
  this section state it on the occurrences of the scan.
\<close>

lemma forEach_append:
  "forEach body (xs @ ys) s =
     (case forEach body xs s of Inl e \<Rightarrow> Inl e | Inr s' \<Rightarrow> forEach body ys s')"
  by (induction xs arbitrary: s) (auto split: sum.splits)

lemma forEach_concat_map:
  "forEach body (concat (map f xs)) s = forEach (\<lambda>x. forEach body (f x)) xs s"
  by (induction xs arbitrary: s) (auto simp: forEach_append split: sum.splits)

lemma catalogTriplet_occurrence:
  "catalogTriplet fixedColumns row t cat
     = forEach recordOccurrence (tripletOccurrence fixedColumns row t) cat"
  by (cases "elementAt row (fixedColumns + t * 3)")
     (auto simp: catalogTriplet_guard processCatalogTriplet_def tripletOccurrence_def
        recordOccurrence_def split: sum.splits)

lemma catalog_row_occurrences:
  "forEach (catalogTriplet fixedColumns row) [0 ..< tripletCount] cat
     = forEach recordOccurrence (rowOccurrences fixedColumns tripletCount row) cat"
proof -
  have "catalogTriplet fixedColumns row
      = (\<lambda>t. forEach recordOccurrence (tripletOccurrence fixedColumns row t))"
    by (intro ext) (rule catalogTriplet_occurrence)
  then show ?thesis
    by (simp add: rowOccurrences_def forEach_concat_map)
qed

lemma buildCatalog_occurrences:
  assumes "\<forall>row \<in> set (drop 1 sourceData). row \<noteq> []"
  shows "buildCatalog fixedColumns tripletCount sourceData
     = forEach recordOccurrence (scanOccurrences fixedColumns tripletCount sourceData)
         \<lparr>questionIdentifiers = [], questionMaxMarks = []\<rparr>"
proof -
  let ?kept = "filter (\<lambda>row. \<not> excludedRow row) (drop 1 sourceData)"
  let ?init = "\<lparr>questionIdentifiers = [], questionMaxMarks = []\<rparr>"
  have rows: "(\<lambda>row. forEach (catalogTriplet fixedColumns row) [0 ..< tripletCount])
      = (\<lambda>row. forEach recordOccurrence (rowOccurrences fixedColumns tripletCount row))"
    by (intro ext) (rule catalog_row_occurrences)
  have "buildCatalog fixedColumns tripletCount sourceData
      = forEach (\<lambda>row. forEach (catalogTriplet fixedColumns row) [0 ..< tripletCount])
          ?kept ?init"
    unfolding buildCatalog_def by (rule catalog_rows_filter [OF assms])
  also have "\<dots> = forEach
        (\<lambda>row. forEach recordOccurrence (rowOccurrences fixedColumns tripletCount row))
        ?kept ?init"
    by (simp only: rows)
  also have "\<dots> = forEach recordOccurrence
        (scanOccurrences fixedColumns tripletCount sourceData) ?init"
    by (simp only: scanOccurrences_def forEach_concat_map)
  finally show ?thesis .
qed

lemma firstOccurrences_keys: "occKey ` set (firstOccurrences xs) = occKey ` set xs"
proof (induction xs)
  case Nil
  show ?case by simp
next
  case (Cons x xs)
  have "occKey ` set (filter (\<lambda>y. occKey y \<noteq> occKey x) (firstOccurrences xs))
      = occKey ` set (firstOccurrences xs) - {occKey x}"
    by auto
  with Cons.IH show ?case by auto
qed

lemma firstOccurrences_subset: "set (firstOccurrences xs) \<subseteq> set xs"
  by (induction xs) auto

lemma firstOccurrences_distinct: "distinct (map occKey (firstOccurrences xs))"
proof (induction xs)
  case Nil
  show ?case by simp
next
  case (Cons x xs)
  have "distinct (map occKey (filter (\<lambda>y. occKey y \<noteq> occKey x) (firstOccurrences xs)))"
    using Cons.IH by (simp add: distinct_map_filter)
  then show ?case by auto
qed

lemma firstOccurrences_snoc:
  "firstOccurrences (xs @ [x]) =
     (if occKey x \<in> occKey ` set xs then firstOccurrences xs else firstOccurrences xs @ [x])"
proof (induction xs)
  case Nil
  show ?case by simp
next
  case (Cons y xs)
  show ?case
  proof (cases "occKey x \<in> occKey ` set xs")
    case True
    with Cons.IH show ?thesis by simp
  next
    case False
    with Cons.IH show ?thesis by auto
  qed
qed

lemma map_of_keys:
  "map_of (map (\<lambda>x. (occKey x, occMaxMark x)) ys) k \<noteq> None \<longleftrightarrow> k \<in> occKey ` set ys"
  by (induction ys) auto

lemma recordOccurrence_catalogOf:
  assumes inv: "catalogOf xs cat"
    and step: "recordOccurrence x cat = Inr cat'"
    and key: "occKey x \<noteq> ''__proto__''"
  shows "catalogOf (xs @ [x]) cat'"
proof -
  let ?k = "occKey x"
  let ?al = "map (\<lambda>x. (occKey x, occMaxMark x)) (firstOccurrences xs)"
  from inv have ids: "questionIdentifiers cat = map occIdentifier (firstOccurrences xs)"
    and tab: "map_of (questionMaxMarks cat) = map_of ?al"
    by (simp_all add: catalogOf_def)
  have seen: "map_of (questionMaxMarks cat) ?k \<noteq> None \<longleftrightarrow> ?k \<in> occKey ` set xs"
    using map_of_keys [of "firstOccurrences xs" ?k] by (simp add: tab firstOccurrences_keys)
  from step have own: "map_of (questionMaxMarks cat) ''hasOwnProperty'' = None"
    by (auto simp: recordOccurrence_def recordQuestion_def hasOwnProperty_def
        split: if_splits)
  show ?thesis
  proof (cases "?k \<in> occKey ` set xs")
    case True
    with step seen own have "cat' = cat"
      by (auto simp: recordOccurrence_def recordQuestion_def hasOwnProperty_def occKey_def
          split: if_splits)
    with True inv show ?thesis
      by (simp add: catalogOf_def firstOccurrences_snoc)
  next
    case False
    with step seen own key have cat':
      "cat' = \<lparr>questionIdentifiers = questionIdentifiers cat @ [occIdentifier x],
               questionMaxMarks = AList.update ?k (occMaxMark x) (questionMaxMarks cat)\<rparr>"
      by (auto simp: recordOccurrence_def recordQuestion_def hasOwnProperty_def occKey_def
          obj_set_def split: if_splits)
    have fo: "firstOccurrences (xs @ [x]) = firstOccurrences xs @ [x]"
      using False by (simp add: firstOccurrences_snoc)
    have notin: "map_of ?al ?k = None"
      using False map_of_keys [of "firstOccurrences xs" ?k]
      by (simp add: firstOccurrences_keys)
    have "map_of (AList.update ?k (occMaxMark x) (questionMaxMarks cat))
        = (map_of ?al)(?k \<mapsto> occMaxMark x)"
      by (simp add: update_conv' tab)
    also have "\<dots> = map_of (?al @ [(?k, occMaxMark x)])"
      using notin by (auto simp: map_add_def fun_eq_iff split: option.splits)
    finally show ?thesis
      by (simp add: catalogOf_def cat' fo ids)
  qed
qed

lemma forEach_catalogOf:
  assumes "forEach recordOccurrence xs \<lparr>questionIdentifiers = [], questionMaxMarks = []\<rparr> = Inr cat"
    and "''__proto__'' \<notin> occKey ` set xs"
  shows "catalogOf xs cat"
  using assms
proof (induction xs arbitrary: cat rule: rev_induct)
  case Nil
  then show ?case by (auto simp: catalogOf_def)
next
  case (snoc x xs)
  from snoc.prems(1) obtain cat1 where
    c1: "forEach recordOccurrence xs \<lparr>questionIdentifiers = [], questionMaxMarks = []\<rparr> = Inr cat1"
    and st: "recordOccurrence x cat1 = Inr cat"
    by (auto simp: forEach_append split: sum.splits)
  from snoc.prems(2) have k: "''__proto__'' \<notin> occKey ` set xs" "occKey x \<noteq> ''__proto__''"
    by auto
  from snoc.IH [OF c1 k(1)] st k(2) show ?case
    by (rule recordOccurrence_catalogOf)
qed

lemma catalogOf_headerRow2:
  assumes "catalogOf xs cat"
  shows "map (\<lambda>q. obj_get (questionMaxMarks cat) (toString q)) (questionIdentifiers cat)
       = map (\<lambda>x. jsval_of (occMaxMark x)) (firstOccurrences xs)"
proof -
  let ?al = "map (\<lambda>x. (occKey x, occMaxMark x)) (firstOccurrences xs)"
  from assms have ids: "questionIdentifiers cat = map occIdentifier (firstOccurrences xs)"
    and tab: "map_of (questionMaxMarks cat) = map_of ?al"
    by (simp_all add: catalogOf_def)
  have d: "distinct (map fst ?al)"
    using firstOccurrences_distinct [of xs] by (simp add: comp_def)
  have "obj_get (questionMaxMarks cat) (toString (occIdentifier x)) = jsval_of (occMaxMark x)"
    if "x \<in> set (firstOccurrences xs)" for x
  proof -
    from that have "(occKey x, occMaxMark x) \<in> set ?al" by auto
    with d have "map_of ?al (occKey x) = Some (occMaxMark x)" by (rule map_of_is_SomeI)
    then show ?thesis by (simp add: obj_get_def tab occKey_def)
  qed
  then show ?thesis by (simp add: ids)
qed

lemma fold_concat_map:
  "fold body (concat (map f xs)) s = fold (\<lambda>x. fold body (f x)) xs s"
  by (induction xs arbitrary: s) simp_all

lemma marksTriplet_occurrence:
  "marksTriplet fixedColumns row t marksMap
     = fold storeMark (tripletOccurrence fixedColumns row t) marksMap"
  by (cases "elementAt row (fixedColumns + t * 3)")
     (auto simp: marksTriplet_guard processMarksTriplet_def tripletOccurrence_def
        storeMark_def occKey_def)

lemma marksMap_occurrences:
  "fold (marksTriplet fixedColumns row) [0 ..< tripletCount] marksMap
     = fold storeMark (rowOccurrences fixedColumns tripletCount row) marksMap"
proof -
  have "marksTriplet fixedColumns row
      = (\<lambda>t. fold storeMark (tripletOccurrence fixedColumns row t))"
    by (intro ext) (rule marksTriplet_occurrence)
  then show ?thesis
    by (simp only: rowOccurrences_def fold_concat_map)
qed

lemma storeMark_other:
  "k \<notin> occKey ` set xs \<Longrightarrow> map_of (fold storeMark xs marksMap) k = map_of marksMap k"
proof (induction xs arbitrary: marksMap)
  case Nil
  show ?case by simp
next
  case (Cons x xs)
  then have "k \<noteq> occKey x" and rest: "k \<notin> occKey ` set xs" by auto
  then have "map_of (storeMark x marksMap) k = map_of marksMap k"
    by (simp add: storeMark_def obj_set_def update_conv')
  with Cons.IH [OF rest, of "storeMark x marksMap"] show ?case by simp
qed

text \<open>
  Blank fill: in the output row of a source row, the cell of a catalog identifier that
  has no occurrence in that row, and does not name a member of \<open>Object.prototype\<close>, is
  the empty string.
\<close>

lemma blank_fill:
  assumes j: "j < length identifiers"
    and fixed: "fixedColumns \<le> length row"
    and own: "toString (identifiers ! j) \<notin> set objectPrototypeNames"
    and absent: "toString (identifiers ! j)
                   \<notin> occKey ` set (rowOccurrences fixedColumns tripletCount row)"
  shows "outputRow fixedColumns tripletCount identifiers row ! (fixedColumns + j) = Cell (CStr [])"
proof -
  let ?m = "fold (marksTriplet fixedColumns row) [0 ..< tripletCount] []"
  let ?k = "toString (identifiers ! j)"
  have "map_of ?m ?k = None"
    using storeMark_other [OF absent, of "[]"] by (simp add: marksMap_occurrences)
  with own have "obj_get ?m ?k = Undefined" by (simp add: obj_get_def)
  moreover have "length (map Cell (take fixedColumns row)) = fixedColumns"
    using fixed by simp
  ultimately show ?thesis
    using j by (simp add: outputRow_def Let_def nth_append)
qed

lemma recordOccurrence_returns:
  assumes "map_of (questionMaxMarks cat) ''hasOwnProperty'' = None"
  shows "\<exists>cat'. recordOccurrence x cat = Inr cat'
           \<and> (occKey x \<noteq> ''hasOwnProperty'' \<longrightarrow>
                map_of (questionMaxMarks cat') ''hasOwnProperty'' = None)"
proof (cases "map_of (questionMaxMarks cat) (occKey x) = None")
  case False
  with assms have "recordOccurrence x cat = Inr cat"
    by (auto simp: recordOccurrence_def recordQuestion_def hasOwnProperty_def occKey_def)
  with assms show ?thesis by simp
next
  case True
  with assms have "recordOccurrence x cat
      = Inr \<lparr>questionIdentifiers = questionIdentifiers cat @ [occIdentifier x],
             questionMaxMarks = obj_set (questionMaxMarks cat) (occKey x) (occMaxMark x)\<rparr>"
    by (simp add: recordOccurrence_def recordQuestion_def hasOwnProperty_def occKey_def)
  moreover have "occKey x \<noteq> ''hasOwnProperty'' \<longrightarrow>
      map_of (obj_set (questionMaxMarks cat) (occKey x) (occMaxMark x)) ''hasOwnProperty'' = None"
    using assms by (simp add: obj_set_def update_conv')
  ultimately show ?thesis by simp
qed

lemma forEach_recordOccurrence_returns:
  assumes "''hasOwnProperty'' \<notin> occKey ` set xs"
    and "map_of (questionMaxMarks cat) ''hasOwnProperty'' = None"
  shows "\<exists>cat'. forEach recordOccurrence xs cat = Inr cat'"
  using assms
proof (induction xs arbitrary: cat)
  case Nil
  show ?case by simp
next
  case (Cons x xs)
  from Cons.prems have k: "occKey x \<noteq> ''hasOwnProperty''"
    and rest: "''hasOwnProperty'' \<notin> occKey ` set xs" by auto
  from recordOccurrence_returns [OF Cons.prems(2), of x] k obtain cat1 where
    c1: "recordOccurrence x cat = Inr cat1"
    and own: "map_of (questionMaxMarks cat1) ''hasOwnProperty'' = None"
    by blast
  from Cons.IH [OF rest own] c1 show ?case by simp
qed

text \<open>
  First occurrence wins, in scan order: when no occurrence is named \<open>__proto__\<close> and the
  first pass returns, the identifiers of the catalog are the identifier cells of the
  first occurrences in the order of the scan, and the values that header row 2 receives
  are the max marks of those first occurrences.
\<close>

lemma catalog_first_occurrences:
  assumes rows: "\<forall>row \<in> set (drop 1 sourceData). row \<noteq> []"
    and keys: "''__proto__'' \<notin> occKey ` set (scanOccurrences fixedColumns tripletCount sourceData)"
    and run: "buildCatalog fixedColumns tripletCount sourceData = Inr cat"
  shows "questionIdentifiers cat
           = map occIdentifier
               (firstOccurrences (scanOccurrences fixedColumns tripletCount sourceData))
       \<and> map (\<lambda>q. obj_get (questionMaxMarks cat) (toString q)) (questionIdentifiers cat)
           = map (\<lambda>x. jsval_of (occMaxMark x))
               (firstOccurrences (scanOccurrences fixedColumns tripletCount sourceData))"
proof -
  have "catalogOf (scanOccurrences fixedColumns tripletCount sourceData) cat"
    using run keys unfolding buildCatalog_occurrences [OF rows] by (rule forEach_catalogOf)
  then show ?thesis
    using catalogOf_headerRow2 by (simp add: catalogOf_def)
qed

text \<open>The first pass returns when no occurrence is named \<open>hasOwnProperty\<close>.\<close>

lemma catalog_returns:
  assumes rows: "\<forall>row \<in> set (drop 1 sourceData). row \<noteq> []"
    and keys: "''hasOwnProperty'' \<notin> occKey ` set (scanOccurrences fixedColumns tripletCount sourceData)"
  shows "\<exists>cat. buildCatalog fixedColumns tripletCount sourceData = Inr cat"
  unfolding buildCatalog_occurrences [OF rows]
  by (rule forEach_recordOccurrence_returns [OF keys]) simp

end
